theory Spec2Isabelle
  imports Main "HOL-Library.Signed_Division"
begin

section \<open>The NEMESIS cipher (Nemesis.pyx)\<close>

subsection \<open>Errors and C integers\<close>

text \<open>
  The ways a run of the module stops early. \<open>OverflowError\<close> is what Cython raises when a
  Python integer is stored into a \<open>cdef int\<close> that cannot hold it, \<open>IndexError\<close> is Python's
  checked indexing, \<open>UnicodeEncodeError\<close> comes from \<open>bytearray(x, encoding='UTF-8')\<close>, and
  \<open>UndefinedBehaviour\<close> stands for what C leaves undefined and the model does not follow (an
  unchecked read outside an array, a zero divisor).
\<close>

datatype error =
  OverflowError | IndexError | ZeroDivisionError | UnicodeEncodeError | UndefinedBehaviour

definition bindE :: "error + 'a \<Rightarrow> ('a \<Rightarrow> error + 'b) \<Rightarrow> error + 'b" where
  "bindE m f = (case m of Inl e \<Rightarrow> Inl e | Inr x \<Rightarrow> f x)"

definition INT_MAX :: int where
  "INT_MAX = 2147483647"

definition INT_MIN :: int where
  "INT_MIN = - 2147483648"

text \<open>Storing a Python integer into a \<open>cdef int\<close> variable.\<close>

definition as_c_int :: "int \<Rightarrow> error + int" where
  "as_c_int v = (if INT_MIN \<le> v \<and> v \<le> INT_MAX then Inr v else Inl OverflowError)"

text \<open>
  An \<open>int\<close> expression computed in C. The compiled module raises nothing when the value leaves
  the range of an \<open>int\<close>: it keeps the low 32 bits, in two's complement.
\<close>

definition wrap_int :: "int \<Rightarrow> int" where
  "wrap_int v = (v - INT_MIN) mod 4294967296 + INT_MIN"

definition c_int_expr :: "int \<Rightarrow> error + int" where
  "c_int_expr v = Inr (wrap_int v)"

subsection \<open>The tables \<open>_ODD\<close> and \<open>_INVERSE\<close>\<close>

text \<open>Python's \<open>range(start, stop, step)\<close> for a positive step.\<close>

function py_range :: "int \<Rightarrow> int \<Rightarrow> int \<Rightarrow> int list" where
  "py_range start stop step =
     (if 0 < step \<and> start < stop then start # py_range (start + step) stop step else [])"
  by pat_completeness auto
termination
  by (relation "measure (\<lambda>(start, stop, step). nat (stop - start))") auto

definition ODD :: "int list" where
  "ODD = py_range 1 256 2"

definition INVERSE :: "int list" where
  "INVERSE = [1, 171, 205, 183, 57, 163, 197, 239, 241, 27, 61, 167, 41, 19,
               53, 223, 225, 139, 173, 151, 25, 131, 165, 207, 209, 251, 29,
               135, 9, 243, 21, 191, 193, 107, 141, 119, 249, 99, 133, 175,
               177, 219, 253, 103, 233, 211, 245, 159, 161, 75, 109, 87, 217,
               67, 101, 143, 145, 187, 221, 71, 201, 179, 213, 127, 129, 43,
               77, 55, 185, 35, 69, 111, 113, 155, 189, 39, 169, 147, 181, 95,
               97, 11, 45, 23, 153, 3, 37, 79, 81, 123, 157, 7, 137, 115, 149,
               63, 65, 235, 13, 247, 121, 227, 5, 47, 49, 91, 125, 231, 105,
               83, 117, 31, 33, 203, 237, 215, 89, 195, 229, 15, 17, 59, 93,
               199, 73, 51, 85, 255]"

text \<open>
  Reading a \<open>cdef int[128]\<close> array at a C integer index. The reads of \<open>nemesis_encrypt\<close> are
  compiled without bounds checks, so an index outside the array is undefined behaviour.
\<close>

definition c_array_get :: "int list \<Rightarrow> int \<Rightarrow> error + int" where
  "c_array_get tab i =
     (if 0 \<le> i \<and> i < int (length tab) then Inr (tab ! nat i) else Inl UndefinedBehaviour)"

subsection \<open>\<open>necessary_length\<close>\<close>

text \<open>
  The C \<open>double\<close> of \<open>approx_growth_rate\<close>: \<open>Finite m e\<close> is the number \<open>m * 2 ^ e\<close>, and
  \<open>PosInf\<close> is positive infinity. Only what the function does with doubles is modelled: the
  literal \<open>2.65\<close>, the product of two positive numbers of magnitude at least one (so there
  is no underflow) rounded to nearest with ties to even on 53 significant bits, and the
  comparison with an \<open>int\<close>, which converts exactly.
\<close>

datatype double = Finite nat int | PosInf

fun bitlen :: "nat \<Rightarrow> nat" where
  "bitlen n = (if n = 0 then 0 else Suc (bitlen (n div 2)))"

declare bitlen.simps [simp del]

text \<open>\<open>round_shift p s\<close> is \<open>p / 2 ^ s\<close> rounded to the nearest integer, ties to even.\<close>

definition round_shift :: "nat \<Rightarrow> nat \<Rightarrow> nat" where
  "round_shift p s =
     (let q = p div 2 ^ s; r = p mod 2 ^ s; half = 2 ^ (s - 1)
      in if s = 0 then p
         else if half < r \<or> (r = half \<and> odd q) then q + 1 else q)"

text \<open>A mantissa and exponent beyond the largest finite double is infinity.\<close>

definition finite_or_inf :: "nat \<Rightarrow> int \<Rightarrow> double" where
  "finite_or_inf m e = (if 1024 < int (bitlen m) + e then PosInf else Finite m e)"

definition double_round :: "nat \<Rightarrow> int \<Rightarrow> double" where
  "double_round p e =
     (let n = bitlen p
      in if n \<le> 53 then finite_or_inf p e
         else finite_or_inf (round_shift p (n - 53)) (e + int (n - 53)))"

fun double_mul :: "double \<Rightarrow> double \<Rightarrow> double" where
  "double_mul (Finite m1 e1) (Finite m2 e2) = double_round (m1 * m2) (e1 + e2)"
| "double_mul _ _ = PosInf"

text \<open>\<open>x < n\<close> for a double \<open>x\<close> and a C \<open>int\<close> \<open>n\<close>.\<close>

fun double_lt_int :: "double \<Rightarrow> int \<Rightarrow> bool" where
  "double_lt_int (Finite m e) n =
     (if 0 \<le> e then int m * 2 ^ nat e < n else int m < n * 2 ^ nat (- e))"
| "double_lt_int PosInf n = False"

text \<open>The literal \<open>2.65\<close>: the double nearest to 265/100.\<close>

definition double_2_65 :: double where
  "double_2_65 = Finite 5967269506265907 (- 51)"

text \<open>
  \<open>cdef int necessary_length (int size)\<close>. The loop is the \<open>while\<close> of the source; a run that
  never left it would be \<open>None\<close>.
\<close>

partial_function (option) necessary_length_loop :: "int \<Rightarrow> double \<Rightarrow> int \<Rightarrow> int option" where
  "necessary_length_loop k approx_growth_rate size' =
     (if double_lt_int approx_growth_rate size'
      then necessary_length_loop (k + 1) (double_mul approx_growth_rate double_2_65) size'
      else Some k)"

declare necessary_length_loop.simps [code]


definition necessary_length :: "int \<Rightarrow> int option" where
  "necessary_length size' = necessary_length_loop 2 double_2_65 size'"


subsection \<open>Python and C operations used by the module\<close>

text \<open>Checked indexing of a Python sequence: a negative index counts from the end.\<close>

definition getitem :: "'a list \<Rightarrow> int \<Rightarrow> error + 'a" where
  "getitem xs i =
     (let n = int (length xs); i' = (if i < 0 then i + n else i)
      in if 0 \<le> i' \<and> i' < n then Inr (xs ! nat i') else Inl IndexError)"

text \<open>
  Indexing compiled under \<open>boundscheck(False)\<close> (a list or a memoryview in
  \<open>nemesis_encrypt\<close>): nothing is checked, so an index outside the sequence is undefined.
\<close>

definition unchecked_get :: "'a list \<Rightarrow> int \<Rightarrow> error + 'a" where
  "unchecked_get xs i =
     (if 0 \<le> i \<and> i < int (length xs) then Inr (xs ! nat i) else Inl UndefinedBehaviour)"

text \<open>\<open>a % b\<close> on C integers in \<open>generate_keystreams\<close> (Python semantics, checked).\<close>

definition py_mod :: "int \<Rightarrow> int \<Rightarrow> error + int" where
  "py_mod a b = (if b = 0 then Inl ZeroDivisionError else Inr (a mod b))"

text \<open>
  \<open>a % b\<close> and \<open>a // b\<close> on C integers in \<open>nemesis_encrypt\<close>, compiled under
  \<open>cdivision(True)\<close>: C's remainder and quotient, which truncate towards zero and are
  undefined for a zero divisor.
\<close>

definition c_rem :: "int \<Rightarrow> int \<Rightarrow> error + int" where
  "c_rem a b = (if b = 0 then Inl UndefinedBehaviour else Inr (a smod b))"

definition c_quot :: "int \<Rightarrow> int \<Rightarrow> error + int" where
  "c_quot a b = (if b = 0 then Inl UndefinedBehaviour else Inr (a sdiv b))"

text \<open>
  \<open>int(ceil(L / 2))\<close> in \<open>generate_keystreams\<close>: \<open>L / 2\<close> is the true quotient, exact in a
  double.
\<close>

definition ceil_half :: "int \<Rightarrow> int" where
  "ceil_half L = (L + 1) div 2"

text \<open>
  \<open>int(ceil(L / 2))\<close> in \<open>nemesis_encrypt\<close>, which is compiled under \<open>cdivision(True)\<close>: there
  \<open>L / 2\<close> on the C \<open>int\<close> \<open>L\<close> is C's integer division, and \<open>ceil\<close> of the integer it gives is
  that integer.
\<close>

definition floor_half :: "int \<Rightarrow> int" where
  "floor_half L = L sdiv 2"

fun mapE :: "('a \<Rightarrow> error + 'b) \<Rightarrow> 'a list \<Rightarrow> error + 'b list" where
  "mapE f [] = Inr []"
| "mapE f (x # xs) = bindE (f x) (\<lambda>y. bindE (mapE f xs) (\<lambda>ys. Inr (y # ys)))"

subsection \<open>\<open>as_bytes\<close>\<close>

text \<open>
  A Python \<open>str\<close> is a list of code points. \<open>as_bytes\<close> is
  \<open>bytearray(x, encoding='UTF-8')\<close>: one to four bytes per code point, and no encoding for
  a surrogate.
\<close>

definition utf8_char :: "nat \<Rightarrow> error + int list" where
  "utf8_char c =
     (if c < 128 then Inr [int c]
      else if c < 2048 then Inr [int (192 + c div 64), int (128 + c mod 64)]
      else if 55296 \<le> c \<and> c < 57344 then Inl UnicodeEncodeError
      else if c < 65536 then
        Inr [int (224 + c div 4096), int (128 + c div 64 mod 64), int (128 + c mod 64)]
      else if c < 1114112 then
        Inr [int (240 + c div 262144), int (128 + c div 4096 mod 64),
             int (128 + c div 64 mod 64), int (128 + c mod 64)]
      else Inl UnicodeEncodeError)"

fun as_bytes :: "nat list \<Rightarrow> error + int list" where
  "as_bytes [] = Inr []"
| "as_bytes (c # cs) =
     bindE (utf8_char c) (\<lambda>b. bindE (as_bytes cs) (\<lambda>bs. Inr (b @ bs)))"

subsection \<open>\<open>generate_keystreams\<close>\<close>

text \<open>
  The two loops of the source are the same text with the roles of the keys exchanged. In
  the definitions below \<open>prev\<close> is \<open>keystream1[-2]\<close>, \<open>K\<close> is \<open>keystream1[0]\<close>, \<open>K'\<close> is
  \<open>keystream2[0]\<close>, \<open>L\<close> is \<open>L1\<close> and \<open>L'\<close> is \<open>L2\<close> (and the other way round for the
  second loop). \<open>aux\<close> is a C \<open>int\<close>; the bytes and their products are Python integers.
\<close>

text \<open>One turn of \<open>for k in range(L2)\<close>.\<close>

definition inner_step ::
  "int list \<Rightarrow> int list \<Rightarrow> int \<Rightarrow> int \<Rightarrow> int \<Rightarrow> int \<Rightarrow> nat \<Rightarrow> error + int" where
  "inner_step K K' L L' j aux k =
     bindE (getitem K' (int k)) (\<lambda>a.
     bindE (c_int_expr (int k + j)) (\<lambda>kj.
     bindE (py_mod kj L') (\<lambda>kj'.
     bindE (getitem K' kj') (\<lambda>b.
     bindE (c_int_expr (aux + int k)) (\<lambda>ak.
     bindE (py_mod ak L) (\<lambda>ak'.
     bindE (getitem K ak') (\<lambda>c.
     as_c_int (aux + a * b * c))))))))"

fun inner_loop ::
  "int list \<Rightarrow> int list \<Rightarrow> int \<Rightarrow> int \<Rightarrow> int \<Rightarrow> int \<Rightarrow> nat list \<Rightarrow> error + int" where
  "inner_loop K K' L L' j aux [] = Inr aux"
| "inner_loop K K' L L' j aux (k # ks) =
     bindE (inner_step K K' L L' j aux k) (\<lambda>aux'. inner_loop K K' L L' j aux' ks)"

text \<open>One turn of \<open>while(j < L1 - i)\<close>: the byte appended to the new row.\<close>

definition row_elem ::
  "int list \<Rightarrow> int list \<Rightarrow> int list \<Rightarrow> int \<Rightarrow> int \<Rightarrow> int \<Rightarrow> nat \<Rightarrow> error + int" where
  "row_elem prev K K' L L' i j =
     bindE (getitem prev (int j)) (\<lambda>a.
     bindE (getitem prev (L - i)) (\<lambda>b.
     bindE (as_c_int (a * b)) (\<lambda>aux.
     bindE (getitem prev (int j + 1)) (\<lambda>c.
     bindE (getitem prev (min 0 (int j - 1))) (\<lambda>d.
     bindE (as_c_int (aux + c * d)) (\<lambda>aux.
     bindE (inner_loop K K' L L' (int j) aux [0..<nat L']) (\<lambda>aux.
     py_mod aux 256)))))))"

text \<open>One turn of \<open>for i in range(1, 1 + stop1)\<close>: the new row.\<close>

definition new_row ::
  "int list list \<Rightarrow> int list \<Rightarrow> int \<Rightarrow> int \<Rightarrow> nat \<Rightarrow> error + int list" where
  "new_row keystream K' L L' i =
     bindE (getitem (keystream @ [[]]) (- 2)) (\<lambda>prev.
     bindE (getitem (keystream @ [[]]) 0) (\<lambda>K.
     mapE (row_elem prev K K' L L' (int i)) [0..<nat (L - int i)]))"

fun build_rows ::
  "int list list \<Rightarrow> int list \<Rightarrow> int \<Rightarrow> int \<Rightarrow> nat list \<Rightarrow> error + int list list" where
  "build_rows keystream K' L L' [] = Inr keystream"
| "build_rows keystream K' L L' (i # is) =
     bindE (new_row keystream K' L L' i) (\<lambda>row. build_rows (keystream @ [row]) K' L L' is)"

definition generate_keystreams ::
  "nat list \<Rightarrow> nat list \<Rightarrow> error + (int list list \<times> int list list)" where
  "generate_keystreams key1 key2 =
     bindE (as_c_int (int (length key1))) (\<lambda>L1.
     bindE (as_c_int (int (length key2))) (\<lambda>L2.
     bindE (as_bytes key1) (\<lambda>row1.
     bindE (as_bytes key2) (\<lambda>row2.
     bindE (build_rows [row1] row2 L1 L2 [1..<nat (1 + ceil_half L1)]) (\<lambda>keystream1.
     bindE (getitem keystream1 0) (\<lambda>K1.
     bindE (build_rows [row2] K1 L2 L1 [1..<nat (1 + ceil_half L2)]) (\<lambda>keystream2.
     Inr (keystream1, keystream2))))))))"

subsection \<open>\<open>nemesis_encrypt\<close>: the mixing bytes\<close>

text \<open>
  One turn of \<open>for i in range(stop1): byte1 += keystream1[i][count %(L1 - i)]\<close>. The list
  \<open>keystream1\<close> is indexed without a bounds check, its row (a \<open>bytearray\<close>) with one.
\<close>

definition mix_step :: "int list list \<Rightarrow> int \<Rightarrow> int \<Rightarrow> int \<Rightarrow> nat \<Rightarrow> error + int" where
  "mix_step keystream L count' byte i =
     bindE (unchecked_get keystream (int i)) (\<lambda>row.
     bindE (c_rem count' (L - int i)) (\<lambda>n.
     bindE (getitem row n) (\<lambda>v.
     as_c_int (byte + v))))"

fun mix_loop :: "int list list \<Rightarrow> int \<Rightarrow> int \<Rightarrow> int \<Rightarrow> nat list \<Rightarrow> error + int" where
  "mix_loop keystream L count' byte [] = Inr byte"
| "mix_loop keystream L count' byte (i # is) =
     bindE (mix_step keystream L count' byte i) (\<lambda>byte'. mix_loop keystream L count' byte' is)"

definition mixing_bytes ::
  "int list list \<Rightarrow> int list list \<Rightarrow> int \<Rightarrow> int \<Rightarrow> int \<Rightarrow> int \<Rightarrow> int \<Rightarrow> error + (int \<times> int)" where
  "mixing_bytes keystream1 keystream2 L1 L2 stop1 stop2 count' =
     bindE (mix_loop keystream1 L1 count' 0 [0..<nat stop1]) (\<lambda>byte1.
     bindE (mix_loop keystream2 L2 count' 0 [0..<nat stop2]) (\<lambda>byte2.
     bindE (c_rem byte1 256) (\<lambda>byte1.
     bindE (c_rem byte2 256) (\<lambda>byte2.
     Inr (byte1, byte2)))))"

subsection \<open>\<open>nemesis_encrypt\<close>: the transform of one byte\<close>

text \<open>
  \<open>data\<close> is a \<open>bytearray\<close>, whose elements are the bytes 0..255, and \<open>data_view\<close> is a
  \<open>char[:]\<close> view of it. What a C \<open>char\<close> read gives for a byte above 127 depends on the
  platform: the byte minus 256 where \<open>char\<close> is signed (x86 and x86-64 with gcc, clang
  and MSVC), the byte itself where it is unsigned (Linux on ARM). The model takes the
  platform's choice as the parameter \<open>signed_char\<close>. Storing an \<open>int\<close> into a \<open>char\<close> keeps
  its low eight bits.
\<close>

definition read_char :: "bool \<Rightarrow> int \<Rightarrow> int" where
  "read_char signed_char b = (if signed_char \<and> 128 \<le> b then b - 256 else b)"

definition store_char :: "int \<Rightarrow> int" where
  "store_char v = v mod 256"

text \<open>
  Lines 265 to 271: from the mixing bytes and the byte \<open>x\<close> of \<open>data\<close> at \<open>index\<close> to the
  byte left there.
\<close>

definition rk_encrypt :: "bool \<Rightarrow> int \<Rightarrow> int \<Rightarrow> int \<Rightarrow> error + int" where
  "rk_encrypt signed_char byte1 byte2 x =
     bindE (c_rem (byte1 + byte2) 256) (\<lambda>s.
     bindE (c_quot s 2) (\<lambda>RK.
     bindE (c_array_get ODD RK) (\<lambda>odd1.
     bindE (c_array_get ODD (127 - RK)) (\<lambda>odd2.
     bindE (c_int_expr ((odd1 * read_char signed_char x + byte1 - byte2) * odd2)) (\<lambda>v.
     bindE (c_rem v 256) (\<lambda>RK.
     Inr (store_char RK)))))))"

subsection \<open>\<open>nemesis_encrypt\<close>: the file and the loop\<close>

record fileobj =
  contents :: "int list"
  offset :: nat

definition file_read :: "nat \<Rightarrow> fileobj \<Rightarrow> int list \<times> fileobj" where
  "file_read n f =
     (let chunk = take n (drop (offset f) (contents f))
      in (chunk, f\<lparr>offset := offset f + length chunk\<rparr>))"

definition file_seek :: "nat \<Rightarrow> fileobj \<Rightarrow> fileobj" where
  "file_seek p f = f\<lparr>offset := p\<rparr>"

text \<open>Writing over the bytes at the offset; a write past the end extends the file.\<close>

definition file_write :: "int list \<Rightarrow> fileobj \<Rightarrow> fileobj" where
  "file_write bs f =
     f\<lparr>contents := take (offset f) (contents f) @ replicate (offset f - length (contents f)) 0
                    @ bs @ drop (offset f + length bs) (contents f),
       offset := offset f + length bs\<rparr>"

definition chunk_size :: int where
  "chunk_size = 1048576"

record session =
  datafile :: fileobj
  data :: "int list"
  count :: int
  checksum :: int

text \<open>
  Lines 280 to 285, run when a chunk is exhausted: the chunk is written over the bytes it
  was read from and the next one is read.
\<close>

definition write_back :: "session \<Rightarrow> session" where
  "write_back s =
     (let position = count s - chunk_size;
          f = file_write (data s) (file_seek (nat position) (datafile s));
          (chunk, f') = file_read (nat chunk_size) f
      in s\<lparr>datafile := f', data := chunk\<rparr>)"

text \<open>
  The body of \<open>while(count < size)\<close>. \<open>count\<close> and \<open>checksum\<close> are \<open>long long\<close>; they stay
  below \<open>2 ^ 63\<close> for every file of fewer than \<open>2 ^ 55\<close> bytes.
\<close>

definition encrypt_byte ::
  "bool \<Rightarrow> int list list \<Rightarrow> int list list \<Rightarrow> int \<Rightarrow> int \<Rightarrow> int \<Rightarrow> int \<Rightarrow> session
     \<Rightarrow> error + session" where
  "encrypt_byte signed_char keystream1 keystream2 L1 L2 stop1 stop2 s =
     bindE (mixing_bytes keystream1 keystream2 L1 L2 stop1 stop2 (count s)) (\<lambda>(byte1, byte2).
     bindE (c_rem (count s) chunk_size) (\<lambda>index.
     bindE (unchecked_get (data s) index) (\<lambda>x.
     bindE (rk_encrypt signed_char byte1 byte2 x) (\<lambda>RK.
     bindE (unchecked_get ((data s)[nat index := RK]) index) (\<lambda>y.
     bindE (c_rem (count s + 1) chunk_size) (\<lambda>r.
       (let s' = s\<lparr>data := (data s)[nat index := RK],
                    checksum := checksum s + read_char signed_char y,
                    count := count s + 1\<rparr>
        in Inr (if r = 0 then write_back s' else s'))))))))"

function encrypt_loop ::
  "bool \<Rightarrow> int list list \<Rightarrow> int list list \<Rightarrow> int \<Rightarrow> int \<Rightarrow> int \<Rightarrow> int \<Rightarrow> int \<Rightarrow> session
     \<Rightarrow> error + session" where
  "encrypt_loop signed_char keystream1 keystream2 L1 L2 stop1 stop2 size' s =
     (if count s < size' then
        (case encrypt_byte signed_char keystream1 keystream2 L1 L2 stop1 stop2 s of
           Inl e \<Rightarrow> Inl e
         | Inr s' \<Rightarrow> encrypt_loop signed_char keystream1 keystream2 L1 L2 stop1 stop2 size' s')
      else Inr s)"
  by pat_completeness auto
termination
  by (relation "measure (\<lambda>(signed_char, keystream1, keystream2, L1, L2, stop1, stop2, size', s).
        nat (size' - count s))")
     (auto simp: encrypt_byte_def write_back_def bindE_def Let_def
        split: sum.splits if_splits prod.splits)

declare encrypt_loop.simps [simp del]

text \<open>The four numbers printed as the message authentication code.\<close>

definition MAC :: "int \<Rightarrow> int \<times> int \<times> int \<times> int" where
  "MAC checksum' =
     (checksum' smod 233, checksum' smod 239, checksum' smod 241, checksum' smod 251)"

text \<open>
  \<open>nemesis_encrypt\<close> from the point where the two passwords have been read: the file as it
  is left on disk, and the code printed. The size is that of the file; \<open>data\<close> starts as
  its first chunk.
\<close>

definition nemesis_encrypt ::
  "bool \<Rightarrow> nat list \<Rightarrow> nat list \<Rightarrow> int list \<Rightarrow> error + (int list \<times> (int \<times> int \<times> int \<times> int))" where
  "nemesis_encrypt signed_char key1 key2 bytes =
     bindE (generate_keystreams key1 key2) (\<lambda>(keystream1, keystream2).
     bindE (getitem keystream1 0) (\<lambda>K1.
     bindE (getitem keystream2 0) (\<lambda>K2.
     bindE (as_c_int (int (length K1))) (\<lambda>L1.
     bindE (as_c_int (int (length K2))) (\<lambda>L2.
       (let (chunk, f) = file_read (nat chunk_size) \<lparr>contents = bytes, offset = 0\<rparr>
        in bindE (encrypt_loop signed_char keystream1 keystream2 L1 L2
                    (floor_half L1) (floor_half L2) (int (length bytes))
                    \<lparr>datafile = f, data = chunk, count = 0, checksum = 0\<rparr>) (\<lambda>s.
           Inr (contents (datafile s), MAC (checksum s)))))))))"

subsection \<open>The transforms as the specification words them\<close>

text \<open>The encrypting transform in the words of section 4.4, on integers.\<close>

definition spec_rk_encrypt :: "int \<Rightarrow> int \<Rightarrow> int \<Rightarrow> int" where
  "spec_rk_encrypt p byte1 byte2 =
     (let RK = ((byte1 + byte2) mod 256) div 2;
          ciphertext = (ODD ! nat RK * p + byte1 - byte2) mod 256
      in (ciphertext * ODD ! nat (127 - RK)) mod 256)"

text \<open>
  Modelled from the spec: the decrypting transform. The source has no decryption
  (\<open>nemesis_decrypt\<close> is the stub \<open>pass\<close>); section 4.4 of the specification gives it as
  \<open>temp = (c * INV[127 - RK]) mod 256\<close> and
  \<open>plaintext = ((temp - byte1 + byte2) mod 256) * INV[RK] mod 256\<close>, with \<open>RK\<close> as in
  encryption and every \<open>mod\<close> normalised into 0..255.
\<close>

definition spec_rk_decrypt :: "int \<Rightarrow> int \<Rightarrow> int \<Rightarrow> int" where
  "spec_rk_decrypt c byte1 byte2 =
     (let RK = ((byte1 + byte2) mod 256) div 2;
          temp = (c * INVERSE ! nat (127 - RK)) mod 256
      in (((temp - byte1 + byte2) mod 256) * INVERSE ! nat RK) mod 256)"

subsection \<open>The keystream recurrence as the specification words it\<close>

text \<open>
  Section 4.2 on lists of integers: \<open>K\<close> is the key's row 0 and \<open>L\<close> its length, \<open>K'\<close> and
  \<open>L'\<close> those of the other key. One update of the accumulator for \<open>k\<close>, then all of them
  for \<open>k = 0..L' - 1\<close> in order, each reading the accumulator the one before left.
\<close>

definition spec_update :: "int list \<Rightarrow> int list \<Rightarrow> nat \<Rightarrow> nat \<Rightarrow> nat \<Rightarrow> int \<Rightarrow> nat \<Rightarrow> int" where
  "spec_update K K' L L' j acc k =
     acc + K' ! k * K' ! ((k + j) mod L') * K ! nat ((acc + int k) mod int L)"

definition spec_acc :: "int list \<Rightarrow> int list \<Rightarrow> nat \<Rightarrow> nat \<Rightarrow> nat \<Rightarrow> int \<Rightarrow> int" where
  "spec_acc K K' L L' j acc = foldl (spec_update K K' L L' j) acc [0..<L']"

text \<open>
  Element \<open>j\<close> of generated row \<open>i\<close> from the previous row, with \<open>p\<close> the index of the second
  factor of \<open>b\<close>; there is no value when one of the four elements of \<open>prevRow\<close> that the
  formula names does not exist.
\<close>

definition spec_row_elem ::
  "int list \<Rightarrow> int list \<Rightarrow> int list \<Rightarrow> nat \<Rightarrow> nat \<Rightarrow> nat \<Rightarrow> nat \<Rightarrow> nat \<Rightarrow> int option" where
  "spec_row_elem prevRow K K' L L' i j p =
     (if j < length prevRow \<and> L - i < length prevRow \<and> j + 1 < length prevRow \<and> p < length prevRow
      then Some (spec_acc K K' L L' j
                   (prevRow ! j * prevRow ! (L - i) + prevRow ! (j + 1) * prevRow ! p) mod 256)
      else None)"

subsection \<open>A matrix of \<open>generate_keystreams\<close>\<close>

text \<open>
  \<open>ks\<close> is what one of the two loops builds for \<open>key\<close>, with \<open>K'\<close> the row 0 of the other
  key \<open>key'\<close>.
\<close>

definition matrix_of :: "nat list \<Rightarrow> nat list \<Rightarrow> int list list \<Rightarrow> int list \<Rightarrow> bool" where
  "matrix_of key key' ks K' \<longleftrightarrow>
     (\<exists>row0. as_bytes key = Inr row0 \<and>
        build_rows [row0] K' (int (length key)) (int (length key'))
          [1..<nat (1 + ceil_half (int (length key)))] = Inr ks)"

subsection \<open>The matrices of the data model\<close>

text \<open>
  A keystream matrix as section 3 of the specification describes it, with the bound on the
  key length under which a sum of up to \<open>\<lceil>L/2\<rceil>\<close> bytes fits the C \<open>int\<close> of \<open>byte1\<close>: row 0 has
  \<open>L \<ge> 1\<close> entries, there are \<open>\<lceil>L/2\<rceil>\<close> rows more, row \<open>i\<close> has \<open>L - i\<close> entries, and every entry
  is a byte.
\<close>

definition keystream_shape :: "int list list \<Rightarrow> bool" where
  "keystream_shape ks \<longleftrightarrow>
     ks \<noteq> [] \<and> 1 \<le> length (ks ! 0) \<and> int (length (ks ! 0)) \<le> 16000000 \<and>
     int (length ks) = 1 + ceil_half (int (length (ks ! 0))) \<and>
     (\<forall>i<length ks. length (ks ! i) = length (ks ! 0) - i \<and>
                     (\<forall>b\<in>set (ks ! i). 0 \<le> b \<and> b < 256))"

section \<open>Theorems\<close>

lemma ODD_explicit: "ODD = map (\<lambda>n. 2 * int n + 1) [0..<128]"
  by code_simp

lemma INVERSE_products: "list_all (\<lambda>n. (ODD ! n * INVERSE ! n) mod 256 = 1) [0..<128]"
  by code_simp

lemma INVERSE_length: "length INVERSE = 128"
  by (simp add: INVERSE_def)

text \<open>
  C8: for every \<open>x\<close> in 0..127 the entry \<open>_ODD[x]\<close> is \<open>2x + 1\<close> and
  \<open>_ODD[x] * _INVERSE[x]\<close> is congruent to 1 modulo 256. Both tables have 128 entries; they
  are constants of the module, and no function of the model takes or returns them.
\<close>

theorem odd_inverse_tables:
  "length ODD = 128 \<and> length INVERSE = 128 \<and>
   (\<forall>x<128. ODD ! x = 2 * int x + 1 \<and> (ODD ! x * INVERSE ! x) mod 256 = 1)"
proof (intro conjI allI impI)
  show "length ODD = 128" by (simp add: ODD_explicit)
  show "length INVERSE = 128" by (rule INVERSE_length)
next
  fix x :: nat assume x: "x < 128"
  then show "ODD ! x = 2 * int x + 1" by (simp add: ODD_explicit)
  from x have "x \<in> set [0..<128]" by simp
  with INVERSE_products show "(ODD ! x * INVERSE ! x) mod 256 = 1"
    unfolding list_all_iff by blast
qed

theorem odd_inverse_tables_witness:
  "(100::nat) < 128 \<and> ODD ! 100 = 201 \<and> INVERSE ! 100 = 121 \<and> (201 * 121) mod 256 = (1::int)"
proof -
  have h: "(100::nat) < 128" by simp
  have i: "INVERSE ! 100 = 121" by (simp add: INVERSE_def)
  from odd_inverse_tables have "ODD ! 100 = 2 * int 100 + 1 \<and> (ODD ! 100 * INVERSE ! 100) mod 256 = 1"
    using h by blast
  with h i show ?thesis by simp
qed


subsection \<open>The doubles of \<open>necessary_length\<close>\<close>

text \<open>The constant is within half a unit in the last place of 265/100, and normal.\<close>

lemma double_2_65_nearest:
  "double_2_65 = Finite m e \<Longrightarrow>
   e = - 51 \<and> 2 ^ 52 \<le> m \<and> m < 2 ^ 53 \<and> \<bar>100 * int m - 265 * 2 ^ 51\<bar> * 2 < 100"
  by (auto simp: double_2_65_def)

lemma bitlen_le_iff: "bitlen n \<le> k \<longleftrightarrow> n < 2 ^ k"
proof (induction k arbitrary: n)
  case 0
  show ?case by (subst bitlen.simps) simp
next
  case (Suc k)
  have "bitlen n \<le> Suc k \<longleftrightarrow> n = 0 \<or> bitlen (n div 2) \<le> k"
    by (subst bitlen.simps) simp
  also have "\<dots> \<longleftrightarrow> n = 0 \<or> n div 2 < 2 ^ k" by (simp add: Suc.IH)
  also have "\<dots> \<longleftrightarrow> n < 2 ^ Suc k" by auto
  finally show ?case .
qed

lemma bitlen_gt_iff: "k < bitlen n \<longleftrightarrow> 2 ^ k \<le> n"
  using bitlen_le_iff [of n k] by auto

lemma round_shift_bounds:
  assumes "2 ^ (52 + s) \<le> p" "p < 2 ^ (53 + s)"
  shows "2 ^ 52 \<le> round_shift p s \<and> round_shift p s \<le> 2 ^ 53"
proof -
  have a: "2 ^ 52 \<le> p div 2 ^ s"
  proof -
    have "(2::nat) ^ 52 * 2 ^ s \<le> p" using assms(1) by (simp add: power_add)
    then show ?thesis by (simp add: less_eq_div_iff_mult_less_eq)
  qed
  have b: "p div 2 ^ s < 2 ^ 53"
  proof -
    have "p < (2::nat) ^ 53 * 2 ^ s" using assms(2) by (simp add: power_add)
    then show ?thesis by (simp add: less_mult_imp_div_less)
  qed
  show ?thesis
  proof (cases "s = 0")
    case True
    with assms show ?thesis by (simp add: round_shift_def)
  next
    case False
    with a b show ?thesis by (auto simp: round_shift_def Let_def)
  qed
qed

text \<open>
  One \<open>approx_growth_rate *= 2.65\<close> on a number with a 53-bit mantissa: the result is
  infinity or again such a number, with a larger exponent.
\<close>

lemma double_mul_step:
  assumes "2 ^ 52 \<le> m" "m \<le> 2 ^ 53"
  shows "double_mul (Finite m e) double_2_65 = PosInf \<or>
         (\<exists>m' e'. double_mul (Finite m e) double_2_65 = Finite m' e' \<and>
                  2 ^ 52 \<le> m' \<and> m' \<le> 2 ^ 53 \<and> e < e' \<and> e' \<le> 972)"
proof -
  let ?c = "5967269506265907 :: nat"
  let ?p = "m * ?c"
  let ?n = "bitlen ?p"
  have lo: "2 ^ 104 \<le> ?p"
  proof -
    have "(2::nat) ^ 52 * 2 ^ 52 \<le> m * ?c" using assms(1) by (intro mult_le_mono) simp_all
    then show ?thesis by simp
  qed
  have hi: "?p < 2 ^ 106"
  proof -
    have "m * ?c \<le> 2 ^ 53 * ?c" using assms(2) by simp
    also have "\<dots> < 2 ^ 106" by simp
    finally show ?thesis .
  qed
  have n1: "104 < ?n" using lo by (simp add: bitlen_gt_iff)
  have n2: "?n \<le> 106" using hi by (simp add: bitlen_le_iff)
  define s where "s = ?n - 53"
  have s: "52 \<le> s" "s \<le> 53" "?n = 53 + s" using n1 n2 by (auto simp: s_def)
  have p1: "2 ^ (52 + s) \<le> ?p"
  proof -
    have "52 + s < ?n" using s by simp
    then show ?thesis by (simp only: bitlen_gt_iff)
  qed
  have p2: "?p < 2 ^ (53 + s)"
  proof -
    have "?n \<le> 53 + s" using s by simp
    then show ?thesis by (simp only: bitlen_le_iff)
  qed
  from round_shift_bounds [OF p1 p2]
  have q: "2 ^ 52 \<le> round_shift ?p s" "round_shift ?p s \<le> 2 ^ 53" by auto
  have r: "double_mul (Finite m e) double_2_65 = finite_or_inf (round_shift ?p s) (e - 51 + int s)"
    using n1 by (simp add: double_2_65_def double_round_def Let_def s_def)
  show ?thesis
  proof (cases "1024 < int (bitlen (round_shift ?p s)) + (e - 51 + int s)")
    case True
    then show ?thesis by (simp add: r finite_or_inf_def)
  next
    case False
    have "52 < bitlen (round_shift ?p s)" using q(1) by (simp only: bitlen_gt_iff)
    with False s have "e - 51 + int s \<le> 972" by linarith
    moreover have "e < e - 51 + int s" using s by simp
    ultimately show ?thesis using False q by (simp add: r finite_or_inf_def)
  qed
qed

text \<open>
  The loop always ends: the exponent grows with every turn until the comparison fails or
  the product is infinite. The count \<open>k\<close> never decreases and grows by at most one per
  exponent, so the \<open>int\<close> that holds it cannot overflow.
\<close>

lemma necessary_length_loop_total:
  "2 ^ 52 \<le> m \<Longrightarrow> m \<le> 2 ^ 53 \<Longrightarrow>
   \<exists>r. necessary_length_loop k (Finite m e) sz = Some r \<and> k \<le> r \<and> r \<le> k + max 1 (974 - e)"
proof (induction "nat (973 - e)" arbitrary: m e k rule: less_induct)
  case less
  show ?case
  proof (cases "double_lt_int (Finite m e) sz")
    case False
    then show ?thesis by (subst necessary_length_loop.simps) simp
  next
    case True
    from double_mul_step [OF less.prems, of e]
    consider "double_mul (Finite m e) double_2_65 = PosInf"
      | m' e' where "double_mul (Finite m e) double_2_65 = Finite m' e'"
          "2 ^ 52 \<le> m'" "m' \<le> 2 ^ 53" "e < e'" "e' \<le> 972"
      by blast
    then show ?thesis
    proof cases
      case 1
      have "necessary_length_loop (k + 1) PosInf sz = Some (k + 1)"
        by (subst necessary_length_loop.simps) simp
      with True 1 show ?thesis by (subst necessary_length_loop.simps) simp
    next
      case 2
      have d: "nat (973 - e') < nat (973 - e)" using 2(4,5) by linarith
      from less.hyps [OF this 2(2,3), of "k + 1"] obtain r where
        r: "necessary_length_loop (k + 1) (Finite m' e') sz = Some r" "k + 1 \<le> r"
           "r \<le> k + 1 + max 1 (974 - e')" by blast
      from r(2,3) 2(4,5) have "k \<le> r \<and> r \<le> k + max 1 (974 - e)" by linarith
      with True 2(1) r(1) show ?thesis by (subst necessary_length_loop.simps) simp
    qed
  qed
qed

lemma necessary_length_total:
  "\<exists>k. necessary_length sz = Some k \<and> 2 \<le> k \<and> k \<le> 1027"
proof -
  have a: "2 ^ 52 \<le> (5967269506265907::nat)" by simp
  have b: "(5967269506265907::nat) \<le> 2 ^ 53" by simp
  from necessary_length_loop_total [OF a b, of 2 "- 51" sz]
  obtain r where r: "necessary_length_loop 2 (Finite 5967269506265907 (- 51)) sz = Some r"
    "2 \<le> r" "r \<le> 2 + max 1 (974 - (- 51))" by blast
  from r(3) have "r \<le> 1027" by simp
  with r(1,2) show ?thesis unfolding necessary_length_def double_2_65_def by blast
qed

text \<open>The first values of \<open>approx_growth_rate\<close>: 7.0225, 18.6096..., 49.3155..., 130.686...\<close>

lemma bitlen_eq: "2 ^ k \<le> n \<Longrightarrow> n < 2 ^ Suc k \<Longrightarrow> bitlen n = Suc k"
  using bitlen_le_iff [of n "Suc k"] bitlen_gt_iff [of k n] by linarith

lemma double_mul_2_65_eval:
  assumes "2 ^ (52 + s) \<le> m * 5967269506265907" "m * 5967269506265907 < 2 ^ (53 + s)" "0 < s"
    and "round_shift (m * 5967269506265907) s = q" "q < 2 ^ 53" "e - 51 + int s \<le> 971"
  shows "double_mul (Finite m e) double_2_65 = Finite q (e - 51 + int s)"
proof -
  have n: "bitlen (m * 5967269506265907) = 53 + s"
    using bitlen_eq [of "52 + s" "m * 5967269506265907"] assms(1,2) by simp
  have "bitlen q \<le> 53" using assms(5) by (simp only: bitlen_le_iff)
  with assms(6) have "\<not> 1024 < int (bitlen q) + (e - 51 + int s)" by linarith
  with n assms(3,4) show ?thesis
    by (simp add: double_2_65_def double_round_def Let_def finite_or_inf_def)
qed

lemma growth_1:
  "double_mul (Finite 5967269506265907 (- 51)) double_2_65 = Finite 7906632095802327 (- 50)"
proof -
  have 1: "2 ^ (52 + 52) \<le> (5967269506265907::nat) * 5967269506265907" by simp
  have 2: "(5967269506265907::nat) * 5967269506265907 < 2 ^ (53 + 52)" by simp
  have 3: "round_shift (5967269506265907 * 5967269506265907) 52 = 7906632095802327"
    by (simp add: round_shift_def Let_def)
  have 4: "(7906632095802327::nat) < 2 ^ 53" by simp
  show ?thesis
    using double_mul_2_65_eval [OF 1 2 _ 3 4, of "- 51"] by simp
qed

lemma growth_2:
  "double_mul (Finite 7906632095802327 (- 50)) double_2_65 = Finite 5238143763469041 (- 48)"
proof -
  have 1: "2 ^ (52 + 53) \<le> (7906632095802327::nat) * 5967269506265907" by simp
  have 2: "(7906632095802327::nat) * 5967269506265907 < 2 ^ (53 + 53)" by simp
  have 3: "round_shift (7906632095802327 * 5967269506265907) 53 = 5238143763469041"
    by (simp add: round_shift_def Let_def)
  have 4: "(5238143763469041::nat) < 2 ^ 53" by simp
  show ?thesis
    using double_mul_2_65_eval [OF 1 2 _ 3 4, of "- 50"] by simp
qed

lemma growth_3:
  "double_mul (Finite 5238143763469041 (- 48)) double_2_65 = Finite 6940540486596479 (- 47)"
proof -
  have 1: "2 ^ (52 + 52) \<le> (5238143763469041::nat) * 5967269506265907" by simp
  have 2: "(5238143763469041::nat) * 5967269506265907 < 2 ^ (53 + 52)" by simp
  have 3: "round_shift (5238143763469041 * 5967269506265907) 52 = 6940540486596479"
    by (simp add: round_shift_def Let_def)
  have 4: "(6940540486596479::nat) < 2 ^ 53" by simp
  show ?thesis
    using double_mul_2_65_eval [OF 1 2 _ 3 4, of "- 48"] by simp
qed

lemma growth_4:
  "double_mul (Finite 6940540486596479 (- 47)) double_2_65 = Finite 4598108072370167 (- 45)"
proof -
  have 1: "2 ^ (52 + 53) \<le> (6940540486596479::nat) * 5967269506265907" by simp
  have 2: "(6940540486596479::nat) * 5967269506265907 < 2 ^ (53 + 53)" by simp
  have 3: "round_shift (6940540486596479 * 5967269506265907) 53 = 4598108072370167"
    by (simp add: round_shift_def Let_def)
  have 4: "(4598108072370167::nat) < 2 ^ 53" by simp
  show ?thesis
    using double_mul_2_65_eval [OF 1 2 _ 3 4, of "- 47"] by simp
qed



lemma necessary_length_loop_continue:
  "double_lt_int g sz \<Longrightarrow> double_mul g double_2_65 = g' \<Longrightarrow>
   necessary_length_loop k g sz = necessary_length_loop (k + 1) g' sz"
  by (subst necessary_length_loop.simps) simp

lemma necessary_length_loop_stop: "\<not> double_lt_int g sz \<Longrightarrow> necessary_length_loop k g sz = Some k"
  by (subst necessary_length_loop.simps) simp

lemma necessary_length_7: "necessary_length 7 = Some 3"
  by (simp add: necessary_length_def double_2_65_def necessary_length_loop_stop
      necessary_length_loop_continue [OF _ growth_1])

lemma necessary_length_100: "necessary_length 100 = Some 6"
  by (simp add: necessary_length_def double_2_65_def necessary_length_loop_stop
      necessary_length_loop_continue [OF _ growth_1] necessary_length_loop_continue [OF _ growth_2]
      necessary_length_loop_continue [OF _ growth_3] necessary_length_loop_continue [OF _ growth_4])

lemma necessary_length_18: "necessary_length 18 = Some 4"
  by (simp add: necessary_length_def double_2_65_def necessary_length_loop_stop
      necessary_length_loop_continue [OF _ growth_1] necessary_length_loop_continue [OF _ growth_2])

text \<open>
  C9: \<open>necessary_length\<close> returns 3 for size 7 and 6 for size 100, and it returns a value
  (one value, being a function of its argument only) for every positive size.
\<close>

theorem necessary_length_examples:
  "necessary_length 7 = Some 3 \<and> necessary_length 100 = Some 6 \<and>
   (\<forall>sz. 0 < sz \<longrightarrow> (\<exists>k. necessary_length sz = Some k))"
proof (intro conjI allI impI)
  show "necessary_length 7 = Some 3" by (rule necessary_length_7)
  show "necessary_length 100 = Some 6" by (rule necessary_length_100)
next
  fix sz :: int
  from necessary_length_total [of sz] show "\<exists>k. necessary_length sz = Some k" by blast
qed

theorem necessary_length_examples_witness:
  "(0::int) < 18 \<and> necessary_length 18 = Some 4"
proof -
  from necessary_length_examples have "\<exists>k. necessary_length 18 = Some k" by simp
  moreover have "necessary_length 18 = Some 4" by (rule necessary_length_18)
  ultimately show ?thesis by simp
qed

text \<open>
  C10: for every size at most 2, negative sizes and zero included, the loop body never
  runs and the result is 2; for every size the function returns, and its result is at
  least 2.
\<close>

theorem necessary_length_at_least_two:
  "(\<forall>sz. sz \<le> 2 \<longrightarrow> necessary_length sz = Some 2) \<and>
   (\<forall>sz. \<exists>k. necessary_length sz = Some k \<and> 2 \<le> k)"
proof (intro conjI allI impI)
  fix sz :: int assume "sz \<le> 2"
  then have "\<not> double_lt_int double_2_65 sz" by (simp add: double_2_65_def)
  then show "necessary_length sz = Some 2"
    unfolding necessary_length_def by (subst necessary_length_loop.simps) simp
next
  fix sz :: int
  from necessary_length_total [of sz] show "\<exists>k. necessary_length sz = Some k \<and> 2 \<le> k" by blast
qed

theorem necessary_length_at_least_two_witness:
  "(- 5 :: int) \<le> 2 \<and> necessary_length (- 5) = Some 2 \<and> necessary_length 0 = Some 2"
proof -
  from necessary_length_at_least_two
  have "(- 5 :: int) \<le> 2 \<longrightarrow> necessary_length (- 5) = Some 2"
    and "(0 :: int) \<le> 2 \<longrightarrow> necessary_length 0 = Some 2" by blast+
  then show ?thesis by simp
qed

subsection \<open>The transform of one byte\<close>

lemma smod_nonneg: "0 \<le> a \<Longrightarrow> 0 < b \<Longrightarrow> a smod b = a mod (b::int)"
  by (simp add: signed_modulo_int_def sgn_if)

lemma sdiv_nonneg: "0 \<le> a \<Longrightarrow> 0 < b \<Longrightarrow> a sdiv b = a div (b::int)"
  by (simp add: signed_divide_int_def sgn_if)

lemma smod_mod: "0 < b \<Longrightarrow> (a smod b) mod b = a mod (b::int)"
proof (cases "0 \<le> a")
  case True
  assume "0 < b"
  with True show ?thesis by (simp add: smod_nonneg)
next
  case False
  assume b: "0 < b"
  from False b have "a smod b = - ((- a) mod b)"
    by (simp add: signed_modulo_int_def sgn_if)
  then show ?thesis by (simp add: mod_minus_eq)
qed

lemma bindE_Inr: "bindE (Inr x) f = f x"
  by (simp add: bindE_def)

lemma bindE_Inl: "bindE (Inl e) f = Inl e"
  by (simp add: bindE_def)

lemma ODD_nth: "0 \<le> r \<Longrightarrow> r < 128 \<Longrightarrow> ODD ! nat r = 2 * r + 1"
proof -
  assume r: "0 \<le> r" "r < 128"
  then have "nat r < 128" by simp
  then have "ODD ! nat r = 2 * int (nat r) + 1" by (simp add: ODD_explicit)
  with r show ?thesis by simp
qed

lemma odd_inverse: "0 \<le> r \<Longrightarrow> r < 128 \<Longrightarrow> ((2 * r + 1) * INVERSE ! nat r) mod 256 = 1"
proof -
  assume r: "0 \<le> r" "r < 128"
  then have "nat r \<in> set [0..<128]" by simp
  with INVERSE_products have "(ODD ! nat r * INVERSE ! nat r) mod 256 = 1"
    unfolding list_all_iff by blast
  with r show ?thesis by (simp add: ODD_nth)
qed

lemma rk_index_range:
  "0 \<le> byte1 \<Longrightarrow> 0 \<le> byte2 \<Longrightarrow>
   c_rem (byte1 + byte2) 256 = Inr ((byte1 + byte2) mod 256) \<and>
   c_quot ((byte1 + byte2) mod 256) 2 = Inr (((byte1 + byte2) mod 256) div 2) \<and>
   0 \<le> ((byte1 + byte2) mod 256) div 2 \<and> ((byte1 + byte2) mod 256) div 2 < 128"
  by (simp add: c_rem_def c_quot_def smod_nonneg sdiv_nonneg)

lemma c_array_get_ODD: "0 \<le> r \<Longrightarrow> r < 128 \<Longrightarrow> c_array_get ODD r = Inr (2 * r + 1)"
  by (simp add: c_array_get_def ODD_nth) (simp add: ODD_explicit)

lemma wrap_int_in_range: "INT_MIN \<le> v \<Longrightarrow> v \<le> INT_MAX \<Longrightarrow> wrap_int v = v"
  by (simp add: wrap_int_def INT_MIN_def INT_MAX_def)

lemma c_int_expr_in_range: "INT_MIN \<le> v \<Longrightarrow> v \<le> INT_MAX \<Longrightarrow> c_int_expr v = Inr v"
  by (simp add: c_int_expr_def wrap_int_in_range)

lemma product_bound:
  assumes "0 \<le> r" "r < 128" "- 128 \<le> x" "x < 256" "0 \<le> b1" "b1 < 256" "0 \<le> b2" "b2 < 256"
  shows "\<bar>((2 * r + 1) * x + b1 - b2) * (2 * (127 - r) + 1)\<bar> \<le> (16711170::int)"
proof -
  have "\<bar>(2 * r + 1) * x\<bar> = \<bar>2 * r + 1\<bar> * \<bar>x\<bar>" by (rule abs_mult)
  also have "\<dots> \<le> 255 * 255" using assms by (intro mult_mono) auto
  finally have a: "\<bar>(2 * r + 1) * x\<bar> \<le> 65025" by simp
  have b: "\<bar>(2 * r + 1) * x + b1 - b2\<bar> \<le> 65534" using a assms by linarith
  have "\<bar>((2 * r + 1) * x + b1 - b2) * (2 * (127 - r) + 1)\<bar>
      = \<bar>(2 * r + 1) * x + b1 - b2\<bar> * \<bar>2 * (127 - r) + 1\<bar>" by (rule abs_mult)
  also have "\<dots> \<le> 65534 * 255" using b assms by (intro mult_mono) auto
  finally show ?thesis by simp
qed

lemma mod_transform:
  "((a * x + b1 - b2) * d) mod 256 = (((a * (x mod 256) + b1 - b2) mod 256) * d) mod (256::int)"
proof -
  have "(a * x) mod 256 = (a * (x mod 256)) mod 256" by (simp add: mod_simps)
  then have "(a * x + b1) mod 256 = (a * (x mod 256) + b1) mod 256"
    by (rule mod_add_cong) simp
  then have "(a * x + b1 - b2) mod 256 = (a * (x mod 256) + b1 - b2) mod 256"
    by (rule mod_diff_cong) simp
  then have "((a * x + b1 - b2) * d) mod 256 = ((a * (x mod 256) + b1 - b2) * d) mod 256"
    by (rule mod_mult_cong) simp
  then show ?thesis by (simp add: mod_simps)
qed

lemma mod_cancel:
  "((y + b1 - b2) mod 256 - b1 + b2) mod 256 = y mod (256::int)"
proof -
  have "((y + b1 - b2) mod 256 - b1) mod 256 = (y + b1 - b2 - b1) mod 256"
    by (rule mod_diff_left_eq)
  then have "((y + b1 - b2) mod 256 - b1 + b2) mod 256 = (y + b1 - b2 - b1 + b2) mod 256"
    by (rule mod_add_cong) simp
  then show ?thesis by simp
qed

lemma rk_encrypt_value:
  assumes "0 \<le> x" "x < 256" "0 \<le> byte1" "byte1 < 256" "0 \<le> byte2" "byte2 < 256"
  shows "rk_encrypt signed_char byte1 byte2 x = Inr (spec_rk_encrypt x byte1 byte2)"
proof -
  define r where "r = ((byte1 + byte2) mod 256) div 2"
  have r: "0 \<le> r" "r < 128" using rk_index_range [OF assms(3,5)] by (auto simp: r_def)
  then have r': "0 \<le> 127 - r" "127 - r < 128" by auto
  define ch where "ch = read_char signed_char x"
  have ch: "- 128 \<le> ch" "ch < 256" "ch mod 256 = x"
    using assms(1,2) by (auto simp: ch_def read_char_def)
  define v where "v = ((2 * r + 1) * ch + byte1 - byte2) * (2 * (127 - r) + 1)"
  have "\<bar>v\<bar> \<le> 16711170" unfolding v_def by (rule product_bound [OF r ch(1,2) assms(3-6)])
  then have v: "c_int_expr v = Inr v"
    by (intro c_int_expr_in_range) (auto simp: INT_MIN_def INT_MAX_def)
  have 1: "c_rem (byte1 + byte2) 256 = Inr ((byte1 + byte2) mod 256)"
    and 2: "c_quot ((byte1 + byte2) mod 256) 2 = Inr r"
    using rk_index_range [OF assms(3,5)] by (simp_all add: r_def)
  have 3: "c_rem v 256 = Inr (v smod 256)" by (simp add: c_rem_def)
  have "rk_encrypt signed_char byte1 byte2 x = Inr (store_char (v smod 256))"
    unfolding rk_encrypt_def
    by (simp only: 1 2 3 bindE_Inr c_array_get_ODD [OF r] c_array_get_ODD [OF r']
        ch_def [symmetric] v_def [symmetric] v)
  also have "store_char (v smod 256) = v mod 256" by (simp add: store_char_def smod_mod)
  also have "v mod 256 = (((2 * r + 1) * (ch mod 256) + byte1 - byte2) mod 256 * (2 * (127 - r) + 1)) mod 256"
    unfolding v_def by (rule mod_transform)
  also have "\<dots> = spec_rk_encrypt x byte1 byte2"
    using r r' by (simp add: spec_rk_encrypt_def Let_def r_def [symmetric] ODD_nth ch(3))
  finally show ?thesis .
qed

lemma mod_one_mult:
  assumes "(a * b) mod 256 = (1::int)"
  shows "(x * a * b) mod 256 = x mod 256"
proof -
  have "(x * a * b) mod 256 = (x * ((a * b) mod 256)) mod 256"
    by (simp add: mod_simps mult.assoc)
  with assms show ?thesis by simp
qed

lemma spec_rk_roundtrip:
  assumes "0 \<le> p" "p < 256" "0 \<le> byte1" "0 \<le> byte2"
  shows "spec_rk_decrypt (spec_rk_encrypt p byte1 byte2) byte1 byte2 = p"
proof -
  define r where "r = ((byte1 + byte2) mod 256) div 2"
  have r: "0 \<le> r" "r < 128" using rk_index_range [OF assms(3,4)] by (auto simp: r_def)
  then have r': "0 \<le> 127 - r" "127 - r < 128" by auto
  define i1 where "i1 = INVERSE ! nat r"
  define i2 where "i2 = INVERSE ! nat (127 - r)"
  define o1 where "o1 = 2 * r + 1"
  define o2 where "o2 = 2 * (127 - r) + 1"
  have inv1: "(o1 * i1) mod 256 = 1" unfolding o1_def i1_def by (rule odd_inverse [OF r])
  have inv2: "(o2 * i2) mod 256 = 1" unfolding o2_def i2_def by (rule odd_inverse [OF r'])
  define c where "c = spec_rk_encrypt p byte1 byte2"
  have c: "c = ((o1 * p + byte1 - byte2) mod 256 * o2) mod 256"
    using r r' by (simp add: c_def spec_rk_encrypt_def Let_def r_def [symmetric] ODD_nth o1_def o2_def)
  have "(c * i2) mod 256 = ((o1 * p + byte1 - byte2) * o2 * i2) mod 256"
    unfolding c by (simp add: mod_simps)
  also have "\<dots> = (o1 * p + byte1 - byte2) mod 256" by (rule mod_one_mult [OF inv2])
  finally have temp: "(c * i2) mod 256 = (o1 * p + byte1 - byte2) mod 256" .
  have "((c * i2) mod 256 - byte1 + byte2) mod 256 = (o1 * p) mod 256"
    unfolding temp by (rule mod_cancel)
  then have "(((c * i2) mod 256 - byte1 + byte2) mod 256 * i1) mod 256 = ((o1 * p) mod 256 * i1) mod 256"
    by (simp only:)
  also have "\<dots> = (p * o1 * i1) mod 256" by (simp add: mod_simps mult.commute)
  also have "\<dots> = p mod 256" by (rule mod_one_mult [OF inv1])
  also have "\<dots> = p" using assms(1,2) by simp
  finally have "(((c * i2) mod 256 - byte1 + byte2) mod 256 * i1) mod 256 = p" .
  moreover have "spec_rk_decrypt c byte1 byte2
      = (((c * i2) mod 256 - byte1 + byte2) mod 256 * i1) mod 256"
    by (simp only: spec_rk_decrypt_def Let_def r_def i1_def i2_def)
  ultimately show ?thesis by (simp only: c_def)
qed

subsection \<open>The rows built by \<open>generate_keystreams\<close>\<close>

lemma bindE_eq_Inr: "bindE m f = Inr y \<longleftrightarrow> (\<exists>x. m = Inr x \<and> f x = Inr y)"
  by (cases m) (simp_all add: bindE_def)

lemma mapE_Inr:
  "mapE f xs = Inr ys \<Longrightarrow> length ys = length xs \<and> (\<forall>n<length xs. f (xs ! n) = Inr (ys ! n))"
proof (induction xs arbitrary: ys)
  case Nil
  then show ?case by simp
next
  case (Cons x xs)
  from Cons.prems obtain y ys' where y: "f x = Inr y" and ys': "mapE f xs = Inr ys'"
    and ys: "ys = y # ys'"
    by (auto simp: bindE_eq_Inr)
  from Cons.IH [OF ys'] have ih: "length ys' = length xs" "\<forall>n<length xs. f (xs ! n) = Inr (ys' ! n)"
    by auto
  show ?case
  proof (intro conjI allI impI)
    show "length ys = length (x # xs)" using ih(1) ys by simp
  next
    fix n assume "n < length (x # xs)"
    then show "f ((x # xs) ! n) = Inr (ys ! n)"
      using y ih(2) ys by (cases n) auto
  qed
qed

lemma getitem_nonneg: "getitem xs i = Inr v \<Longrightarrow> 0 \<le> i \<Longrightarrow> nat i < length xs \<and> v = xs ! nat i"
  by (auto simp: getitem_def Let_def split: if_splits)

lemma getitem_last: "getitem xs (- 1) = Inr v \<Longrightarrow> xs \<noteq> [] \<and> v = xs ! (length xs - 1)"
proof -
  assume a: "getitem xs (- 1) = Inr v"
  then have n: "0 < length xs" by (auto simp: getitem_def Let_def split: if_splits)
  then have "nat (- 1 + int (length xs)) = length xs - 1" by simp
  with a n show ?thesis by (auto simp: getitem_def Let_def split: if_splits)
qed

lemma getitem_in_set: "getitem xs i = Inr v \<Longrightarrow> v \<in> set xs"
  by (auto simp: getitem_def Let_def split: if_splits)

lemma getitem_neg:
  "i < 0 \<Longrightarrow> 0 \<le> i + int (length xs) \<Longrightarrow> getitem xs i = Inr (xs ! nat (i + int (length xs)))"
  by (simp add: getitem_def Let_def)

lemma getitem_prev: "ks \<noteq> [] \<Longrightarrow> getitem (ks @ [[]]) (- 2) = Inr (last ks)"
proof -
  assume ks: "ks \<noteq> []"
  then have n: "0 < length ks" by simp
  then have e: "nat (- 2 + int (length (ks @ [[]]))) = length ks - 1" by simp
  have "(ks @ [[]]) ! (length ks - 1) = ks ! (length ks - 1)" using n by (simp add: nth_append)
  also have "\<dots> = last ks" using ks by (simp add: last_conv_nth)
  finally have l: "(ks @ [[]]) ! (length ks - 1) = last ks" .
  have "getitem (ks @ [[]]) (- 2) = Inr ((ks @ [[]]) ! nat (- 2 + int (length (ks @ [[]]))))"
    using n by (intro getitem_neg) simp_all
  then show ?thesis by (simp only: e l)
qed

lemma getitem_first: "ks \<noteq> [] \<Longrightarrow> getitem (ks @ [[]]) 0 = Inr (hd ks)"
  by (cases ks) (simp_all add: getitem_def Let_def)

lemma row_elem_byte: "row_elem prev K K' L L' i j = Inr v \<Longrightarrow> 0 \<le> v \<and> v < 256"
  by (auto simp: row_elem_def bindE_eq_Inr py_mod_def)

lemma new_row_Inr:
  assumes "new_row ks K' L L' i = Inr row" "ks \<noteq> []"
  shows "length row = nat (L - int i) \<and>
         (\<forall>j<nat (L - int i). row_elem (last ks) (hd ks) K' L L' (int i) j = Inr (row ! j))"
proof -
  from assms have "mapE (row_elem (last ks) (hd ks) K' L L' (int i)) [0..<nat (L - int i)] = Inr row"
    by (simp add: new_row_def getitem_prev getitem_first bindE_Inr)
  from mapE_Inr [OF this] show ?thesis by simp
qed

lemma build_rows_Inr:
  "build_rows ks K' L L' is = Inr ks' \<Longrightarrow> ks \<noteq> [] \<Longrightarrow>
   length ks' = length ks + length is \<and> take (length ks) ks' = ks \<and>
   (\<forall>n<length is. new_row (take (length ks + n) ks') K' L L' (is ! n) = Inr (ks' ! (length ks + n)))"
proof (induction "is" arbitrary: ks)
  case Nil
  then show ?case by simp
next
  case (Cons i "is")
  from Cons.prems(1) obtain row where row: "new_row ks K' L L' i = Inr row"
    and rest: "build_rows (ks @ [row]) K' L L' is = Inr ks'"
    by (auto simp: bindE_eq_Inr)
  from Cons.IH [OF rest] have ih:
    "length ks' = length (ks @ [row]) + length is"
    "take (length (ks @ [row])) ks' = ks @ [row]"
    "\<forall>n<length is. new_row (take (length (ks @ [row]) + n) ks') K' L L' (is ! n)
        = Inr (ks' ! (length (ks @ [row]) + n))"
    by auto
  have t: "take (length ks) ks' = ks"
  proof -
    have "take (length ks) ks' = take (length ks) (take (length (ks @ [row])) ks')"
      by (simp add: min_def)
    also have "\<dots> = ks" by (simp only: ih(2)) simp
    finally show ?thesis .
  qed
  have r: "ks' ! length ks = row"
  proof -
    have "ks' ! length ks = take (length (ks @ [row])) ks' ! length ks" by simp
    also have "\<dots> = row" by (simp only: ih(2)) simp
    finally show ?thesis .
  qed
  show ?case
  proof (intro conjI allI impI)
    show "length ks' = length ks + length (i # is)" using ih(1) by simp
    show "take (length ks) ks' = ks" by (rule t)
  next
    fix n assume n: "n < length (i # is)"
    show "new_row (take (length ks + n) ks') K' L L' ((i # is) ! n) = Inr (ks' ! (length ks + n))"
    proof (cases n)
      case 0
      then show ?thesis using t r row by simp
    next
      case (Suc m)
      with n have "m < length is" by simp
      with ih(3) have "new_row (take (length (ks @ [row]) + m) ks') K' L L' (is ! m)
        = Inr (ks' ! (length (ks @ [row]) + m))" by blast
      then show ?thesis using Suc by simp
    qed
  qed
qed

text \<open>The rows of one matrix, built from its row 0.\<close>

lemma matrix_rows:
  assumes "build_rows [row0] K' L L' [1..<nat (1 + stop)] = Inr ks" "0 \<le> stop"
  shows "length ks = 1 + nat stop" and "ks ! 0 = row0"
    and "\<And>i. 1 \<le> i \<Longrightarrow> i \<le> nat stop \<Longrightarrow>
          length (ks ! i) = nat (L - int i) \<and>
          (\<forall>j<nat (L - int i). row_elem (ks ! (i - 1)) row0 K' L L' (int i) j = Inr (ks ! i ! j))"
proof -
  from build_rows_Inr [OF assms(1)] have b:
    "length ks = length [row0] + length [1..<nat (1 + stop)]"
    "take (length [row0]) ks = [row0]"
    "\<forall>n<length [1..<nat (1 + stop)].
       new_row (take (length [row0] + n) ks) K' L L' ([1..<nat (1 + stop)] ! n)
         = Inr (ks ! (length [row0] + n))"
    by auto
  from b(1) assms(2) show len: "length ks = 1 + nat stop" by (simp add: nat_add_distrib)
  from b(2) have "take 1 ks ! 0 = row0" by simp
  then show z: "ks ! 0 = row0" by simp
  fix i :: nat assume i: "1 \<le> i" "i \<le> nat stop"
  define n where "n = i - 1"
  have n1: "n < length [1..<nat (1 + stop)]" using i assms(2) by (simp add: n_def)
  have "1 + n < nat (1 + stop)" using i assms(2) by (simp add: n_def)
  then have "[1..<nat (1 + stop)] ! n = 1 + n" by (rule nth_upt)
  then have n2: "[1..<nat (1 + stop)] ! n = i" using i by (simp add: n_def)
  have n3: "length [row0] + n = i" using i by (simp add: n_def)
  note n = n1 n2 n3
  from b(3) n have nr: "new_row (take i ks) K' L L' i = Inr (ks ! i)" by metis
  have ne: "take i ks \<noteq> []" using i len by auto
  have l: "last (take i ks) = ks ! (i - 1)"
  proof -
    have "last (take i ks) = take i ks ! (length (take i ks) - 1)"
      using ne by (rule last_conv_nth)
    also have "length (take i ks) = i" using i len by simp
    also have "take i ks ! (i - 1) = ks ! (i - 1)" using i by simp
    finally show ?thesis .
  qed
  have h: "hd (take i ks) = row0"
  proof -
    have "hd (take i ks) = take i ks ! 0" using ne by (rule hd_conv_nth)
    also have "\<dots> = ks ! 0" using i by simp
    finally show ?thesis using z by simp
  qed
  from new_row_Inr [OF nr ne] show "length (ks ! i) = nat (L - int i) \<and>
          (\<forall>j<nat (L - int i). row_elem (ks ! (i - 1)) row0 K' L L' (int i) j = Inr (ks ! i ! j))"
    unfolding l h .
qed

subsection \<open>Results of the checked operations\<close>

lemma as_c_int_Inr: "as_c_int v = Inr w \<Longrightarrow> w = v"
  by (simp add: as_c_int_def split: if_splits)

lemma py_mod_Inr: "py_mod a b = Inr r \<Longrightarrow> b \<noteq> 0 \<and> r = a mod b"
  by (simp add: py_mod_def split: if_splits)

subsection \<open>The two matrices\<close>

lemma ceil_half_nonneg: "0 \<le> L \<Longrightarrow> 0 \<le> ceil_half L"
  by (simp add: ceil_half_def)

lemma ceil_half_bounds: "L \<le> 2 * ceil_half L \<and> 2 * ceil_half L \<le> L + 1"
  by (simp add: ceil_half_def) presburger

lemma generate_keystreams_Inr:
  assumes "generate_keystreams key1 key2 = Inr (ks1, ks2)"
  shows "\<exists>row1 row2. as_bytes key1 = Inr row1 \<and> as_bytes key2 = Inr row2 \<and>
           build_rows [row1] row2 (int (length key1)) (int (length key2))
             [1..<nat (1 + ceil_half (int (length key1)))] = Inr ks1 \<and>
           build_rows [row2] row1 (int (length key2)) (int (length key1))
             [1..<nat (1 + ceil_half (int (length key2)))] = Inr ks2"
proof -
  from assms obtain L1 L2 row1 row2 K1 where
    L1: "as_c_int (int (length key1)) = Inr L1" and L2: "as_c_int (int (length key2)) = Inr L2"
    and row1: "as_bytes key1 = Inr row1" and row2: "as_bytes key2 = Inr row2"
    and b1: "build_rows [row1] row2 L1 L2 [1..<nat (1 + ceil_half L1)] = Inr ks1"
    and K1: "getitem ks1 0 = Inr K1"
    and b2: "build_rows [row2] K1 L2 L1 [1..<nat (1 + ceil_half L2)] = Inr ks2"
    unfolding generate_keystreams_def bindE_eq_Inr by blast
  have l1: "L1 = int (length key1)" and l2: "L2 = int (length key2)"
    using as_c_int_Inr [OF L1] as_c_int_Inr [OF L2] by simp_all
  have "0 \<le> ceil_half L1" unfolding l1 by (rule ceil_half_nonneg) simp
  from matrix_rows(2) [OF b1 this] getitem_nonneg [OF K1] have "K1 = row1" by simp
  with row1 row2 b1 b2 show ?thesis unfolding l1 l2 by blast
qed

lemma generate_keystreams_matrices:
  assumes "generate_keystreams key1 key2 = Inr (ks1, ks2)"
  shows "matrix_of key1 key2 ks1 (ks2 ! 0)" "matrix_of key2 key1 ks2 (ks1 ! 0)"
proof -
  from generate_keystreams_Inr [OF assms] obtain row1 row2 where
    r: "as_bytes key1 = Inr row1" "as_bytes key2 = Inr row2"
    and b1: "build_rows [row1] row2 (int (length key1)) (int (length key2))
             [1..<nat (1 + ceil_half (int (length key1)))] = Inr ks1"
    and b2: "build_rows [row2] row1 (int (length key2)) (int (length key1))
             [1..<nat (1 + ceil_half (int (length key2)))] = Inr ks2"
    by blast
  have z1: "ks1 ! 0 = row1" by (rule matrix_rows(2) [OF b1 ceil_half_nonneg]) simp
  have z2: "ks2 ! 0 = row2" by (rule matrix_rows(2) [OF b2 ceil_half_nonneg]) simp
  show "matrix_of key1 key2 ks1 (ks2 ! 0)" unfolding matrix_of_def z2 using r(1) b1 by blast
  show "matrix_of key2 key1 ks2 (ks1 ! 0)" unfolding matrix_of_def z1 using r(2) b2 by blast
qed

lemma matrix_of_rows:
  assumes "matrix_of key key' ks K'"
  shows "as_bytes key = Inr (ks ! 0)"
    and "int (length ks) = 1 + ceil_half (int (length key))"
    and "\<And>i. 1 \<le> i \<Longrightarrow> int i \<le> ceil_half (int (length key)) \<Longrightarrow>
          length (ks ! i) = length key - i \<and>
          (\<forall>j<length key - i.
             row_elem (ks ! (i - 1)) (ks ! 0) K' (int (length key)) (int (length key')) (int i) j
               = Inr (ks ! i ! j))"
proof -
  from assms obtain row0 where r: "as_bytes key = Inr row0"
    and b: "build_rows [row0] K' (int (length key)) (int (length key'))
          [1..<nat (1 + ceil_half (int (length key)))] = Inr ks"
    unfolding matrix_of_def by blast
  have s: "0 \<le> ceil_half (int (length key))" by (rule ceil_half_nonneg) simp
  note m = matrix_rows [OF b s]
  show "as_bytes key = Inr (ks ! 0)" using r m(2) by simp
  show "int (length ks) = 1 + ceil_half (int (length key))" using m(1) s by simp
  fix i :: nat assume i: "1 \<le> i" "int i \<le> ceil_half (int (length key))"
  then have "i \<le> nat (ceil_half (int (length key)))" by simp
  from m(3) [OF i(1) this]
  show "length (ks ! i) = length key - i \<and>
          (\<forall>j<length key - i.
             row_elem (ks ! (i - 1)) (ks ! 0) K' (int (length key)) (int (length key')) (int i) j
               = Inr (ks ! i ! j))"
    unfolding m(2) by (simp add: nat_diff_distrib')
qed

subsection \<open>Evaluating the generator\<close>

lemmas keystream_eval =
  generate_keystreams_def bindE_def as_c_int_def c_int_expr_def wrap_int_def INT_MIN_def
  INT_MAX_def utf8_char_def ceil_half_def new_row_def row_elem_def inner_step_def getitem_def
  py_mod_def Let_def upt_rec

subsection \<open>The shape of a matrix\<close>

lemma utf8_char_bytes:
  "utf8_char c = Inr bs \<Longrightarrow> (\<forall>b\<in>set bs. 0 \<le> b \<and> b < 256) \<and> 1 \<le> length bs"
  by (auto simp: utf8_char_def split: if_splits)

lemma as_bytes_bytes:
  "as_bytes key = Inr row \<Longrightarrow> (\<forall>b\<in>set row. 0 \<le> b \<and> b < 256) \<and> length key \<le> length row"
proof (induction key arbitrary: row)
  case Nil
  then show ?case by simp
next
  case (Cons c cs)
  from Cons.prems obtain b bs where b: "utf8_char c = Inr b" and bs: "as_bytes cs = Inr bs"
    and row: "row = b @ bs"
    by (auto simp: bindE_eq_Inr)
  from utf8_char_bytes [OF b] Cons.IH [OF bs] row show ?case by auto
qed

lemma as_bytes_ascii: "\<forall>c\<in>set key. c < 128 \<Longrightarrow> as_bytes key = Inr (map int key)"
  by (induction key) (simp_all add: utf8_char_def bindE_Inr)

lemma matrix_of_bytes:
  assumes "matrix_of key key' ks K'" "row \<in> set ks" "b \<in> set row"
  shows "0 \<le> b \<and> b < 256"
proof -
  from assms(2) obtain i where i: "i < length ks" "row = ks ! i" by (auto simp: in_set_conv_nth)
  from assms(3) obtain j where j: "j < length row" "b = row ! j" by (auto simp: in_set_conv_nth)
  show ?thesis
  proof (cases "i = 0")
    case True
    with matrix_of_rows(1) [OF assms(1)] i have "as_bytes key = Inr row" by simp
    from as_bytes_bytes [OF this] assms(3) show ?thesis by blast
  next
    case False
    then have i1: "1 \<le> i" by simp
    from i(1) matrix_of_rows(2) [OF assms(1)] have i2: "int i \<le> ceil_half (int (length key))"
      by linarith
    from matrix_of_rows(3) [OF assms(1) i1 i2] i(2) j
    have "row_elem (ks ! (i - 1)) (ks ! 0) K' (int (length key)) (int (length key')) (int i) j
               = Inr b" by simp
    then show ?thesis by (rule row_elem_byte)
  qed
qed

text \<open>
  The shape of a matrix: row 0 is the key's bytes, there are \<open>\<lceil>L/2\<rceil>\<close> rows more where
  \<open>L = len(key)\<close>, generated row \<open>i\<close> has \<open>L - i\<close> elements, and every entry is a byte.
\<close>

lemma matrix_of_shape:
  assumes "matrix_of key key' ks K'"
  shows "as_bytes key = Inr (ks ! 0)"
    and "int (length ks) = 1 + ceil_half (int (length key))"
    and "\<And>i. 1 \<le> i \<Longrightarrow> i < length ks \<Longrightarrow> length (ks ! i) = length key - i"
    and "\<And>row b. row \<in> set ks \<Longrightarrow> b \<in> set row \<Longrightarrow> 0 \<le> b \<and> b < 256"
proof -
  show "as_bytes key = Inr (ks ! 0)" by (rule matrix_of_rows(1) [OF assms])
  show l: "int (length ks) = 1 + ceil_half (int (length key))" by (rule matrix_of_rows(2) [OF assms])
  show "\<And>row b. row \<in> set ks \<Longrightarrow> b \<in> set row \<Longrightarrow> 0 \<le> b \<and> b < 256"
    by (rule matrix_of_bytes [OF assms])
  fix i assume i: "1 \<le> i" "i < length ks"
  with l have "int i \<le> ceil_half (int (length key))" by linarith
  from matrix_of_rows(3) [OF assms i(1) this] show "length (ks ! i) = length key - i" by simp
qed

lemma keystreams_e_acute:
  "generate_keystreams [233] [97] = Inr ([[195, 169], []], [[97], []])"
  by (simp add: keystream_eval)

subsection \<open>The per-byte transform and its table lookups\<close>

lemma unchecked_get_Inr: "unchecked_get xs i = Inr v \<Longrightarrow> 0 \<le> i \<and> nat i < length xs \<and> v = xs ! nat i"
  by (auto simp: unchecked_get_def split: if_splits)

lemma mix_step_nonneg:
  assumes "mix_step ks L t byte i = Inr byte'" "\<forall>row\<in>set ks. \<forall>b\<in>set row. 0 \<le> b"
  shows "byte \<le> byte'"
proof -
  from assms(1) obtain row n v where row: "unchecked_get ks (int i) = Inr row"
    and v: "getitem row n = Inr v" and r: "as_c_int (byte + v) = Inr byte'"
    unfolding mix_step_def bindE_eq_Inr by blast
  from unchecked_get_Inr [OF row] have "row \<in> set ks" by simp
  with getitem_in_set [OF v] assms(2) have "0 \<le> v" by blast
  with as_c_int_Inr [OF r] show ?thesis by simp
qed

lemma mix_loop_nonneg:
  "mix_loop ks L t byte is = Inr r \<Longrightarrow> \<forall>row\<in>set ks. \<forall>b\<in>set row. 0 \<le> b \<Longrightarrow> byte \<le> r"
proof (induction "is" arbitrary: byte)
  case Nil
  then show ?case by simp
next
  case (Cons i "is")
  from Cons.prems(1) obtain byte' where s: "mix_step ks L t byte i = Inr byte'"
    and l: "mix_loop ks L t byte' is = Inr r"
    by (auto simp: bindE_eq_Inr)
  from mix_step_nonneg [OF s Cons.prems(2)] Cons.IH [OF l Cons.prems(2)] show ?case by simp
qed

lemma c_rem_256: "0 \<le> a \<Longrightarrow> c_rem a 256 = Inr (a mod 256)"
  by (simp add: c_rem_def smod_nonneg)

lemma mixing_bytes_range:
  assumes "mixing_bytes ks1 ks2 L1 L2 stop1 stop2 t = Inr (byte1, byte2)"
    and "\<forall>row\<in>set ks1. \<forall>b\<in>set row. 0 \<le> b" "\<forall>row\<in>set ks2. \<forall>b\<in>set row. 0 \<le> b"
  shows "0 \<le> byte1 \<and> byte1 < 256 \<and> 0 \<le> byte2 \<and> byte2 < 256"
proof -
  from assms(1) obtain s1 s2 where s1: "mix_loop ks1 L1 t 0 [0..<nat stop1] = Inr s1"
    and s2: "mix_loop ks2 L2 t 0 [0..<nat stop2] = Inr s2"
    and b1: "c_rem s1 256 = Inr byte1" and b2: "c_rem s2 256 = Inr byte2"
    unfolding mixing_bytes_def bindE_eq_Inr by blast
  from mix_loop_nonneg [OF s1 assms(2)] b1 have "byte1 = s1 mod 256" by (simp add: c_rem_256)
  moreover from mix_loop_nonneg [OF s2 assms(3)] b2 have "byte2 = s2 mod 256"
    by (simp add: c_rem_256)
  ultimately show ?thesis by simp
qed

lemma c_array_get_INVERSE:
  "0 \<le> r \<Longrightarrow> r < 128 \<Longrightarrow> c_array_get INVERSE r = Inr (INVERSE ! nat r)"
  by (simp add: c_array_get_def INVERSE_length)

text \<open>
  C1: for every plaintext byte and every pair of mixing bytes in 0..255, the transform of
  lines 265 to 271 leaves the byte that the specification's encrypting formula gives, on
  either kind of platform, and the specification's decrypting transform takes it back to
  the plaintext byte.
\<close>

theorem rk_decrypt_encrypt:
  assumes "0 \<le> p" "p < 256" "0 \<le> byte1" "byte1 < 256" "0 \<le> byte2" "byte2 < 256"
  shows "\<exists>c. rk_encrypt signed_char byte1 byte2 p = Inr c \<and> c = spec_rk_encrypt p byte1 byte2 \<and>
             spec_rk_decrypt c byte1 byte2 = p"
  using rk_encrypt_value [OF assms] spec_rk_roundtrip [OF assms(1,2,3,5)] by simp

theorem rk_decrypt_encrypt_witness:
  "(0::int) \<le> 200 \<and> (200::int) < 256 \<and> (0::int) \<le> 10 \<and> (10::int) < 256 \<and> (0::int) \<le> 250 \<and>
   (250::int) < 256 \<and>
   (\<exists>c. rk_encrypt True 10 250 200 = Inr c \<and> c = spec_rk_encrypt 200 10 250 \<and>
        spec_rk_decrypt c 10 250 = 200)"
  using rk_decrypt_encrypt [of 200 10 250 True] by simp

text \<open>
  C7: whatever the keys and the position, once the two mixing bytes are computed they lie
  in 0..255, the index \<open>RK = ((byte1 + byte2) mod 256) div 2\<close> and the index \<open>127 - RK\<close> lie
  in 0..127, the reads of \<open>_ODD\<close> (and of \<open>_INVERSE\<close>) at both are inside the tables, and the
  transform of any byte returns a byte: no read outside a table can happen.
\<close>

theorem table_lookups_in_bounds:
  assumes "generate_keystreams key1 key2 = Inr (keystream1, keystream2)"
    and "mixing_bytes keystream1 keystream2 L1 L2 stop1 stop2 t = Inr (byte1, byte2)"
  shows "0 \<le> byte1 \<and> byte1 < 256 \<and> 0 \<le> byte2 \<and> byte2 < 256 \<and>
         (\<exists>RK. c_rem (byte1 + byte2) 256 = Inr ((byte1 + byte2) mod 256) \<and>
               c_quot ((byte1 + byte2) mod 256) 2 = Inr RK \<and>
               RK = ((byte1 + byte2) mod 256) div 2 \<and>
               0 \<le> RK \<and> RK \<le> 127 \<and> 0 \<le> 127 - RK \<and> 127 - RK \<le> 127 \<and>
               c_array_get ODD RK = Inr (2 * RK + 1) \<and>
               c_array_get ODD (127 - RK) = Inr (2 * (127 - RK) + 1) \<and>
               c_array_get INVERSE RK = Inr (INVERSE ! nat RK) \<and>
               c_array_get INVERSE (127 - RK) = Inr (INVERSE ! nat (127 - RK))) \<and>
         (\<forall>x. 0 \<le> x \<and> x < 256 \<longrightarrow>
              (\<exists>c. rk_encrypt signed_char byte1 byte2 x = Inr c \<and> 0 \<le> c \<and> c < 256))"
proof -
  note m = generate_keystreams_matrices [OF assms(1)]
  have 1: "\<forall>row\<in>set keystream1. \<forall>b\<in>set row. 0 \<le> b" using matrix_of_bytes [OF m(1)] by blast
  have 2: "\<forall>row\<in>set keystream2. \<forall>b\<in>set row. 0 \<le> b" using matrix_of_bytes [OF m(2)] by blast
  from mixing_bytes_range [OF assms(2) 1 2]
  have b: "0 \<le> byte1" "byte1 < 256" "0 \<le> byte2" "byte2 < 256" by simp_all
  define RK where "RK = ((byte1 + byte2) mod 256) div 2"
  from rk_index_range [OF b(1,3)] have r: "c_rem (byte1 + byte2) 256 = Inr ((byte1 + byte2) mod 256)"
    "c_quot ((byte1 + byte2) mod 256) 2 = Inr RK" "0 \<le> RK" "RK < 128"
    by (simp_all add: RK_def)
  then have r': "0 \<le> 127 - RK" "127 - RK < 128" by simp_all
  have t: "\<exists>RK. c_rem (byte1 + byte2) 256 = Inr ((byte1 + byte2) mod 256) \<and>
               c_quot ((byte1 + byte2) mod 256) 2 = Inr RK \<and>
               RK = ((byte1 + byte2) mod 256) div 2 \<and>
               0 \<le> RK \<and> RK \<le> 127 \<and> 0 \<le> 127 - RK \<and> 127 - RK \<le> 127 \<and>
               c_array_get ODD RK = Inr (2 * RK + 1) \<and>
               c_array_get ODD (127 - RK) = Inr (2 * (127 - RK) + 1) \<and>
               c_array_get INVERSE RK = Inr (INVERSE ! nat RK) \<and>
               c_array_get INVERSE (127 - RK) = Inr (INVERSE ! nat (127 - RK))"
  proof (intro exI [of _ RK] conjI)
    show "c_rem (byte1 + byte2) 256 = Inr ((byte1 + byte2) mod 256)" by (rule r(1))
    show "c_quot ((byte1 + byte2) mod 256) 2 = Inr RK" by (rule r(2))
    show "RK = ((byte1 + byte2) mod 256) div 2" by (rule RK_def)
    show "0 \<le> RK" by (rule r(3))
    show "RK \<le> 127" using r(4) by simp
    show "0 \<le> 127 - RK" by (rule r'(1))
    show "127 - RK \<le> 127" using r(3) by simp
    show "c_array_get ODD RK = Inr (2 * RK + 1)" by (rule c_array_get_ODD [OF r(3,4)])
    show "c_array_get ODD (127 - RK) = Inr (2 * (127 - RK) + 1)" by (rule c_array_get_ODD [OF r'])
    show "c_array_get INVERSE RK = Inr (INVERSE ! nat RK)" by (rule c_array_get_INVERSE [OF r(3,4)])
    show "c_array_get INVERSE (127 - RK) = Inr (INVERSE ! nat (127 - RK))"
      by (rule c_array_get_INVERSE [OF r'])
  qed
  have e: "\<forall>x. 0 \<le> x \<and> x < 256 \<longrightarrow>
              (\<exists>c. rk_encrypt signed_char byte1 byte2 x = Inr c \<and> 0 \<le> c \<and> c < 256)"
  proof (intro allI impI)
    fix x :: int assume x: "0 \<le> x \<and> x < 256"
    then have "rk_encrypt signed_char byte1 byte2 x = Inr (spec_rk_encrypt x byte1 byte2)"
      using b by (intro rk_encrypt_value) simp_all
    moreover have "0 \<le> spec_rk_encrypt x byte1 byte2 \<and> spec_rk_encrypt x byte1 byte2 < 256"
      by (simp add: spec_rk_encrypt_def Let_def)
    ultimately show "\<exists>c. rk_encrypt signed_char byte1 byte2 x = Inr c \<and> 0 \<le> c \<and> c < 256"
      by simp
  qed
  from b t e show ?thesis by blast
qed

subsection \<open>The mixing bytes\<close>

lemma floor_half_eq: "0 \<le> L \<Longrightarrow> floor_half L = L div 2"
  by (simp add: floor_half_def sdiv_nonneg)

lemma floor_half_bounds: "0 \<le> L \<Longrightarrow> 0 \<le> floor_half L \<and> 2 * floor_half L \<le> L"
  by (simp add: floor_half_eq)

lemma floor_half_less: "0 \<le> L \<Longrightarrow> i < nat (floor_half L) \<Longrightarrow> int i < L"
  using floor_half_bounds [of L] by linarith

lemma odd_length_stops: "0 \<le> n \<Longrightarrow> floor_half (2 * n + 1) = n \<and> ceil_half (2 * n + 1) = n + 1"
  by (simp add: floor_half_eq ceil_half_def)

lemma mix_step_Inr:
  assumes "mix_step ks L t byte i = Inr byte'" "0 \<le> t" "int i < L"
  shows "byte' = byte + ks ! i ! nat (t mod (L - int i))"
proof -
  from assms(1) obtain row n v where row: "unchecked_get ks (int i) = Inr row"
    and n: "c_rem t (L - int i) = Inr n"
    and v: "getitem row n = Inr v" and r: "as_c_int (byte + v) = Inr byte'"
    unfolding mix_step_def bindE_eq_Inr by blast
  have 1: "row = ks ! i" using unchecked_get_Inr [OF row] by simp
  have 2: "n = t mod (L - int i)" using n assms(2,3) by (simp add: c_rem_def smod_nonneg)
  then have "0 \<le> n" using assms(3) by simp
  from getitem_nonneg [OF v this] 1 2 as_c_int_Inr [OF r] show ?thesis by simp
qed

lemma mix_loop_Inr:
  "mix_loop ks L t byte is = Inr r \<Longrightarrow> 0 \<le> t \<Longrightarrow> \<forall>i\<in>set is. int i < L \<Longrightarrow>
   r = byte + sum_list (map (\<lambda>i. ks ! i ! nat (t mod (L - int i))) is)"
proof (induction "is" arbitrary: byte)
  case Nil
  then show ?case by simp
next
  case (Cons i "is")
  from Cons.prems(1) obtain byte' where s: "mix_step ks L t byte i = Inr byte'"
    and l: "mix_loop ks L t byte' is = Inr r"
    by (auto simp: bindE_eq_Inr)
  have "int i < L" using Cons.prems(3) by simp
  from mix_step_Inr [OF s Cons.prems(2) this] Cons.IH [OF l Cons.prems(2)] Cons.prems(3)
  show ?case by simp
qed

lemma sum_list_upt: "sum_list (map f [0..<n]) = (\<Sum>i<n. f i)"
  by (simp add: interv_sum_list_conv_sum_set_nat atLeast0LessThan)

lemma mixing_byte_Inr:
  assumes "mix_loop ks L t 0 [0..<nat (floor_half L)] = Inr s" "c_rem s 256 = Inr byte"
    "0 \<le> t" "\<forall>row\<in>set ks. \<forall>b\<in>set row. 0 \<le> b" "0 \<le> L"
  shows "byte = (\<Sum>i<nat (floor_half L). ks ! i ! nat (t mod (L - int i))) mod 256"
proof -
  have "\<forall>i\<in>set [0..<nat (floor_half L)]. int i < L" using floor_half_less [OF assms(5)] by simp
  from mix_loop_Inr [OF assms(1,3) this]
  have "s = (\<Sum>i<nat (floor_half L). ks ! i ! nat (t mod (L - int i)))" by (simp add: sum_list_upt)
  moreover from mix_loop_nonneg [OF assms(1,4)] assms(2) have "byte = s mod 256"
    by (simp add: c_rem_256)
  ultimately show ?thesis by simp
qed

text \<open>On a matrix of the data model every read of the loop is inside its row.\<close>

lemma mix_step_shape:
  assumes "i < length ks" "int i < L" "length (ks ! i) = nat (L - int i)"
    "\<forall>b\<in>set (ks ! i). 0 \<le> b \<and> b < 256" "0 \<le> t" "0 \<le> byte" "byte + 255 \<le> INT_MAX"
  shows "\<exists>v. mix_step ks L t byte i = Inr (byte + v) \<and> 0 \<le> v \<and> v \<le> 255"
proof -
  define n where "n = t mod (L - int i)"
  have n: "0 \<le> n" "n < L - int i" using assms(2) by (simp_all add: n_def)
  have 1: "unchecked_get ks (int i) = Inr (ks ! i)" using assms(1) by (simp add: unchecked_get_def)
  have 2: "c_rem t (L - int i) = Inr n" using assms(2,5) by (simp add: c_rem_def smod_nonneg n_def)
  have l: "nat n < length (ks ! i)" using n assms(3) by simp
  then have 3: "getitem (ks ! i) n = Inr (ks ! i ! nat n)" using n by (simp add: getitem_def Let_def)
  from nth_mem [OF l] assms(4) have "0 \<le> ks ! i ! nat n \<and> ks ! i ! nat n < 256" by blast
  then have v: "0 \<le> ks ! i ! nat n" "ks ! i ! nat n \<le> 255" by simp_all
  then have 4: "as_c_int (byte + ks ! i ! nat n) = Inr (byte + ks ! i ! nat n)"
    using assms(6,7) by (simp add: as_c_int_def INT_MIN_def INT_MAX_def)
  have "mix_step ks L t byte i = Inr (byte + ks ! i ! nat n)"
    unfolding mix_step_def by (simp only: 1 2 3 4 bindE_Inr)
  with v show ?thesis by blast
qed

lemma mix_loop_shape:
  assumes "\<forall>i\<in>set is. i < length ks \<and> int i < L \<and> length (ks ! i) = nat (L - int i) \<and>
             (\<forall>b\<in>set (ks ! i). 0 \<le> b \<and> b < 256)"
    "0 \<le> t" "0 \<le> byte" "byte + 255 * int (length is) \<le> INT_MAX"
  shows "\<exists>r. mix_loop ks L t byte is = Inr r"
  using assms
proof (induction "is" arbitrary: byte)
  case Nil
  then show ?case by simp
next
  case (Cons i "is")
  have i: "i < length ks" "int i < L" "length (ks ! i) = nat (L - int i)"
    "\<forall>b\<in>set (ks ! i). 0 \<le> b \<and> b < 256" using Cons.prems(1) by simp_all
  have "byte + 255 \<le> INT_MAX" using Cons.prems(4) by simp
  from mix_step_shape [OF i Cons.prems(2,3) this] obtain v where
    v: "mix_step ks L t byte i = Inr (byte + v)" "0 \<le> v" "v \<le> 255" by blast
  have "\<exists>r. mix_loop ks L t (byte + v) is = Inr r"
  proof (rule Cons.IH)
    show "\<forall>i\<in>set is. i < length ks \<and> int i < L \<and> length (ks ! i) = nat (L - int i) \<and>
             (\<forall>b\<in>set (ks ! i). 0 \<le> b \<and> b < 256)" using Cons.prems(1) by simp
    show "0 \<le> t" by (rule Cons.prems(2))
    show "0 \<le> byte + v" using Cons.prems(3) v(2) by simp
    show "byte + v + 255 * int (length is) \<le> INT_MAX" using Cons.prems(4) v(3) by simp
  qed
  with v(1) show ?case by (simp add: bindE_Inr)
qed

lemma keystream_shape_mix:
  assumes "keystream_shape ks" "0 \<le> t"
  shows "\<exists>r. mix_loop ks (int (length (ks ! 0))) t 0
               [0..<nat (floor_half (int (length (ks ! 0))))] = Inr r \<and> 0 \<le> r"
proof -
  define L where "L = int (length (ks ! 0))"
  from assms(1) have s0: "1 \<le> length (ks ! 0)" "int (length (ks ! 0)) \<le> 16000000"
    "int (length ks) = 1 + ceil_half (int (length (ks ! 0)))"
    "\<forall>i<length ks. length (ks ! i) = length (ks ! 0) - i \<and> (\<forall>b\<in>set (ks ! i). 0 \<le> b \<and> b < 256)"
    unfolding keystream_shape_def by blast+
  have s: "1 \<le> L" "L \<le> 16000000" "int (length ks) = 1 + ceil_half L"
    using s0(1-3) unfolding L_def by linarith+
  note s = s s0(4)
  have c: "0 \<le> floor_half L" "floor_half L \<le> 8000000" "floor_half L \<le> ceil_half L"
    using s(1,2) floor_half_bounds [of L] ceil_half_bounds [of L] by linarith+
  have "\<exists>r. mix_loop ks L t 0 [0..<nat (floor_half L)] = Inr r"
  proof (rule mix_loop_shape)
    show "\<forall>i\<in>set [0..<nat (floor_half L)].
       i < length ks \<and> int i < L \<and> length (ks ! i) = nat (L - int i) \<and>
       (\<forall>b\<in>set (ks ! i). 0 \<le> b \<and> b < 256)"
    proof
      fix i assume "i \<in> set [0..<nat (floor_half L)]"
      then have i: "i < nat (floor_half L)" by simp
      then have 1: "i < length ks" using s(3) c(3) by linarith
      have 2: "int i < L" using floor_half_less [OF _ i] s(1) by linarith
      from s(4) 1 have "length (ks ! i) = length (ks ! 0) - i" "\<forall>b\<in>set (ks ! i). 0 \<le> b \<and> b < 256"
        by simp_all
      moreover have "length (ks ! 0) - i = nat (L - int i)" by (simp add: L_def)
      ultimately show "i < length ks \<and> int i < L \<and> length (ks ! i) = nat (L - int i) \<and>
       (\<forall>b\<in>set (ks ! i). 0 \<le> b \<and> b < 256)" using 1 2 by simp
    qed
    show "0 \<le> t" by (rule assms(2))
    show "(0::int) \<le> 0" by simp
    have "int (length [0..<nat (floor_half L)]) = floor_half L" using c(1) by simp
    then show "0 + 255 * int (length [0..<nat (floor_half L)]) \<le> INT_MAX"
      using c(2) unfolding INT_MAX_def by linarith
  qed
  then obtain r where r: "mix_loop ks L t 0 [0..<nat (floor_half L)] = Inr r" by blast
  have "\<forall>row\<in>set ks. \<forall>b\<in>set row. 0 \<le> b"
  proof (intro ballI)
    fix row b assume "row \<in> set ks" "b \<in> set row"
    then obtain i where "i < length ks" "row = ks ! i" by (auto simp: in_set_conv_nth)
    with s(4) \<open>b \<in> set row\<close> show "0 \<le> b" by blast
  qed
  from mix_loop_nonneg [OF r this] r show ?thesis unfolding L_def by blast
qed

text \<open>The loop over \<open>range(stop1)\<close> reads none of the rows from index \<open>stop1\<close> on.\<close>

lemma mix_step_update: "i \<noteq> n \<Longrightarrow> mix_step (ks[n := r]) L t byte i = mix_step ks L t byte i"
  by (simp add: mix_step_def unchecked_get_def)

lemma mix_loop_update:
  "n \<notin> set is \<Longrightarrow> mix_loop (ks[n := r]) L t byte is = mix_loop ks L t byte is"
proof (induction "is" arbitrary: byte)
  case Nil
  show ?case by simp
next
  case (Cons i "is")
  then have "i \<noteq> n" "n \<notin> set is" by auto
  with Cons.IH show ?case by (simp add: mix_step_update)
qed

text \<open>
  At every position \<open>t \<ge> 0\<close> the two mixing bytes of \<open>nemesis_encrypt\<close>, when the loops
  return them, are the sums over \<open>i = 0..stop-1\<close> of \<open>row[i][t mod (L - i)]\<close> modulo 256 with
  \<open>stop = \<lfloor>L/2\<rfloor>\<close>, the stop that the function computes; on matrices of the data model the
  loops do return them; and no row from index \<open>\<lfloor>L/2\<rfloor>\<close> on is read: replacing the row of that
  index changes nothing.
\<close>

lemma mixing_bytes_value:
  assumes "0 \<le> t" "0 \<le> L1" "0 \<le> L2"
    and "\<forall>row\<in>set keystream1. \<forall>b\<in>set row. 0 \<le> b"
    and "\<forall>row\<in>set keystream2. \<forall>b\<in>set row. 0 \<le> b"
  shows "(mixing_bytes keystream1 keystream2 L1 L2 (floor_half L1) (floor_half L2) t
            = Inr (byte1, byte2) \<longrightarrow>
          byte1 = (\<Sum>i<nat (floor_half L1). keystream1 ! i ! nat (t mod (L1 - int i))) mod 256 \<and>
          byte2 = (\<Sum>i<nat (floor_half L2). keystream2 ! i ! nat (t mod (L2 - int i))) mod 256) \<and>
         (keystream_shape keystream1 \<and> keystream_shape keystream2 \<and>
          L1 = int (length (keystream1 ! 0)) \<and> L2 = int (length (keystream2 ! 0)) \<longrightarrow>
          (\<exists>b1 b2. mixing_bytes keystream1 keystream2 L1 L2 (floor_half L1) (floor_half L2) t
                     = Inr (b1, b2))) \<and>
         mixing_bytes (keystream1[nat (floor_half L1) := r1]) (keystream2[nat (floor_half L2) := r2])
             L1 L2 (floor_half L1) (floor_half L2) t
           = mixing_bytes keystream1 keystream2 L1 L2 (floor_half L1) (floor_half L2) t"
proof (intro conjI impI)
  assume m: "mixing_bytes keystream1 keystream2 L1 L2 (floor_half L1) (floor_half L2) t
            = Inr (byte1, byte2)"
  then obtain s1 s2 where s1: "mix_loop keystream1 L1 t 0 [0..<nat (floor_half L1)] = Inr s1"
    and s2: "mix_loop keystream2 L2 t 0 [0..<nat (floor_half L2)] = Inr s2"
    and b1: "c_rem s1 256 = Inr byte1" and b2: "c_rem s2 256 = Inr byte2"
    unfolding mixing_bytes_def bindE_eq_Inr by blast
  show "byte1 = (\<Sum>i<nat (floor_half L1). keystream1 ! i ! nat (t mod (L1 - int i))) mod 256"
    by (rule mixing_byte_Inr [OF s1 b1 assms(1,4,2)])
  show "byte2 = (\<Sum>i<nat (floor_half L2). keystream2 ! i ! nat (t mod (L2 - int i))) mod 256"
    by (rule mixing_byte_Inr [OF s2 b2 assms(1,5,3)])
next
  assume a: "keystream_shape keystream1 \<and> keystream_shape keystream2 \<and>
          L1 = int (length (keystream1 ! 0)) \<and> L2 = int (length (keystream2 ! 0))"
  from a keystream_shape_mix [of keystream1 t] assms(1)
  obtain s1 where s1: "mix_loop keystream1 L1 t 0 [0..<nat (floor_half L1)] = Inr s1" "0 \<le> s1"
    by blast
  from a keystream_shape_mix [of keystream2 t] assms(1)
  obtain s2 where s2: "mix_loop keystream2 L2 t 0 [0..<nat (floor_half L2)] = Inr s2" "0 \<le> s2"
    by blast
  have "mixing_bytes keystream1 keystream2 L1 L2 (floor_half L1) (floor_half L2) t
          = Inr (s1 mod 256, s2 mod 256)"
    unfolding mixing_bytes_def
    by (simp only: s1(1) s2(1) bindE_Inr c_rem_256 [OF s1(2)] c_rem_256 [OF s2(2)])
  then show "\<exists>b1 b2. mixing_bytes keystream1 keystream2 L1 L2 (floor_half L1) (floor_half L2) t
                     = Inr (b1, b2)" by blast
next
  have 1: "nat (floor_half L1) \<notin> set [0..<nat (floor_half L1)]" by simp
  have 2: "nat (floor_half L2) \<notin> set [0..<nat (floor_half L2)]" by simp
  show "mixing_bytes (keystream1[nat (floor_half L1) := r1]) (keystream2[nat (floor_half L2) := r2])
             L1 L2 (floor_half L1) (floor_half L2) t
           = mixing_bytes keystream1 keystream2 L1 L2 (floor_half L1) (floor_half L2) t"
    unfolding mixing_bytes_def by (simp only: mix_loop_update [OF 1] mix_loop_update [OF 2])
qed

lemmas mixing_eval =
  mixing_bytes_def mix_step_def unchecked_get_def c_rem_def getitem_def as_c_int_def bindE_def
  INT_MIN_def INT_MAX_def ceil_half_def Let_def upt_rec

lemma keystreams_ab_cd:
  "generate_keystreams [97, 98] [99, 100] = Inr ([[97, 98], [95]], [[99, 100], [107]])"
  by (simp add: keystream_eval)

lemma mixing_bytes_ab_cd_0:
  "mixing_bytes [[97, 98], [95]] [[99, 100], [107]] 2 2 1 1 0 = Inr (97, 99)"
  by (simp add: mixing_eval)

theorem table_lookups_in_bounds_witness:
  "generate_keystreams [97, 98] [99, 100] = Inr ([[97, 98], [95]], [[99, 100], [107]]) \<and>
   mixing_bytes [[97, 98], [95]] [[99, 100], [107]] 2 2 1 1 0 = Inr (97, 99) \<and>
   c_array_get ODD 98 = Inr 197 \<and> c_array_get ODD 29 = Inr 59 \<and>
   (\<exists>c. rk_encrypt True 97 99 0 = Inr c \<and> 0 \<le> c \<and> c < 256)"
proof -
  from table_lookups_in_bounds [OF keystreams_ab_cd mixing_bytes_ab_cd_0, of True]
  have "\<exists>RK. RK = ((97 + 99) mod 256) div 2 \<and> c_array_get ODD RK = Inr (2 * RK + 1) \<and>
              c_array_get ODD (127 - RK) = Inr (2 * (127 - RK) + 1)"
    and "\<forall>x. 0 \<le> x \<and> x < 256 \<longrightarrow> (\<exists>c. rk_encrypt True 97 99 x = Inr c \<and> 0 \<le> c \<and> c < 256)"
    by blast+
  then have "c_array_get ODD 98 = Inr 197 \<and> c_array_get ODD 29 = Inr 59"
    and "\<exists>c. rk_encrypt True 97 99 0 = Inr c \<and> 0 \<le> c \<and> c < 256"
    by simp_all
  with keystreams_ab_cd mixing_bytes_ab_cd_0 show ?thesis by blast
qed

subsection \<open>Runs of \<open>nemesis_encrypt\<close> on small files\<close>

lemmas encrypt_eval =
  nemesis_encrypt_def floor_half_def encrypt_loop.simps encrypt_byte_def write_back_def rk_encrypt_def file_read_def
  file_write_def file_seek_def chunk_size_def read_char_def store_char_def c_quot_def
  c_array_get_def c_int_expr_def wrap_int_def MAC_def signed_modulo_int_def signed_divide_int_def

lemma rk_encrypt_97_99_0: "rk_encrypt sc 97 99 0 = Inr 138"
  by (simp add: rk_encrypt_value spec_rk_encrypt_def ODD_explicit)

lemma nemesis_encrypt_one_byte_signed:
  "nemesis_encrypt True [97, 98] [99, 100] [0] = Inr ([0], (- 118, - 118, - 118, - 118))"
  by (simp add: encrypt_eval keystreams_ab_cd mixing_eval ODD_explicit)

lemma nemesis_encrypt_one_byte_unsigned:
  "nemesis_encrypt False [97, 98] [99, 100] [0] = Inr ([0], (138, 138, 138, 138))"
  by (simp add: encrypt_eval keystreams_ab_cd mixing_eval ODD_explicit)

lemma keystreams_e_acute_twice:
  "generate_keystreams [233, 233] [97, 98]
     = Inr ([[195, 169, 195, 169], [219]], [[97, 98], [128]])"
  by (simp add: keystream_eval)

lemma nemesis_encrypt_e_acute_twice:
  "nemesis_encrypt sc [233, 233] [97, 98] [0, 0] = Inl IndexError"
  by (simp add: encrypt_eval keystreams_e_acute_twice mixing_eval ODD_explicit)

subsection \<open>The loop, the checksum and the file\<close>

lemma rk_encrypt_byte: "rk_encrypt sc byte1 byte2 x = Inr c \<Longrightarrow> 0 \<le> c \<and> c < 256"
  by (auto simp: rk_encrypt_def bindE_eq_Inr store_char_def)

lemma encrypt_byte_Inr:
  assumes "encrypt_byte sc ks1 ks2 L1 L2 stop1 stop2 s = Inr s'"
  shows "\<exists>byte1 byte2 index x RK r.
    mixing_bytes ks1 ks2 L1 L2 stop1 stop2 (count s) = Inr (byte1, byte2) \<and>
    c_rem (count s) chunk_size = Inr index \<and>
    unchecked_get (data s) index = Inr x \<and>
    rk_encrypt sc byte1 byte2 x = Inr RK \<and>
    c_rem (count s + 1) chunk_size = Inr r \<and>
    s' = (if r = 0
          then write_back (s\<lparr>data := (data s)[nat index := RK],
                              checksum := checksum s + read_char sc RK, count := count s + 1\<rparr>)
          else s\<lparr>data := (data s)[nat index := RK],
                 checksum := checksum s + read_char sc RK, count := count s + 1\<rparr>)"
proof -
  from assms obtain b where b: "mixing_bytes ks1 ks2 L1 L2 stop1 stop2 (count s) = Inr b"
    and rest: "(case b of (byte1, byte2) \<Rightarrow>
     bindE (c_rem (count s) chunk_size) (\<lambda>index.
     bindE (unchecked_get (data s) index) (\<lambda>x.
     bindE (rk_encrypt sc byte1 byte2 x) (\<lambda>RK.
     bindE (unchecked_get ((data s)[nat index := RK]) index) (\<lambda>y.
     bindE (c_rem (count s + 1) chunk_size) (\<lambda>r.
       (let s' = s\<lparr>data := (data s)[nat index := RK],
                    checksum := checksum s + read_char sc y,
                    count := count s + 1\<rparr>
        in Inr (if r = 0 then write_back s' else s')))))))) = Inr s'"
    unfolding encrypt_byte_def by (subst (asm) bindE_eq_Inr) blast
  obtain byte1 byte2 where p: "b = (byte1, byte2)" by (cases b)
  from rest [unfolded p prod.case bindE_eq_Inr Let_def] obtain index x RK y r where
    f: "c_rem (count s) chunk_size = Inr index" "unchecked_get (data s) index = Inr x"
      "rk_encrypt sc byte1 byte2 x = Inr RK"
      "unchecked_get ((data s)[nat index := RK]) index = Inr y"
      "c_rem (count s + 1) chunk_size = Inr r"
    and s': "Inr (if r = 0
          then write_back (s\<lparr>data := (data s)[nat index := RK],
                              checksum := checksum s + read_char sc y, count := count s + 1\<rparr>)
          else s\<lparr>data := (data s)[nat index := RK],
                 checksum := checksum s + read_char sc y, count := count s + 1\<rparr>)
         = (Inr s' :: error + session)"
    by blast
  from unchecked_get_Inr [OF f(4)] have "y = RK" by simp
  with s' have "s' = (if r = 0
          then write_back (s\<lparr>data := (data s)[nat index := RK],
                              checksum := checksum s + read_char sc RK, count := count s + 1\<rparr>)
          else s\<lparr>data := (data s)[nat index := RK],
                 checksum := checksum s + read_char sc RK, count := count s + 1\<rparr>)"
    by auto
  with b [unfolded p] f show ?thesis by blast
qed

lemma write_back_fields: "checksum (write_back s) = checksum s \<and> count (write_back s) = count s"
  by (simp add: write_back_def Let_def split: prod.splits)

text \<open>
  One turn of the loop adds to the checksum the byte just stored, read back through the
  \<open>char\<close> view: the byte itself where \<open>char\<close> is unsigned, the byte minus 256 for a byte
  above 127 where it is signed.
\<close>

lemma encrypt_byte_addend:
  assumes "encrypt_byte sc ks1 ks2 L1 L2 stop1 stop2 s = Inr s'"
  shows "\<exists>c. 0 \<le> c \<and> c < 256 \<and> checksum s' = checksum s + read_char sc c \<and>
             count s' = count s + 1"
proof -
  from encrypt_byte_Inr [OF assms] obtain byte1 byte2 index x RK r where
    RK: "rk_encrypt sc byte1 byte2 x = Inr RK"
    and s': "s' = (if (r::int) = 0
          then write_back (s\<lparr>data := (data s)[nat index := RK],
                              checksum := checksum s + read_char sc RK, count := count s + 1\<rparr>)
          else s\<lparr>data := (data s)[nat index := RK],
                 checksum := checksum s + read_char sc RK, count := count s + 1\<rparr>)"
    by blast
  from s' have "checksum s' = checksum s + read_char sc RK \<and> count s' = count s + 1"
    by (simp add: write_back_fields)
  with rk_encrypt_byte [OF RK] show ?thesis by blast
qed

lemma encrypt_byte_small:
  assumes "encrypt_byte sc ks1 ks2 L1 L2 stop1 stop2 s = Inr s'"
    "0 \<le> count s" "count s + 1 < chunk_size"
  shows "datafile s' = datafile s \<and> count s' = count s + 1"
proof -
  from encrypt_byte_Inr [OF assms(1)] obtain index RK r where
    r: "c_rem (count s + 1) chunk_size = Inr r"
    and s': "s' = (if r = 0
          then write_back (s\<lparr>data := (data s)[nat index := RK],
                              checksum := checksum s + read_char sc RK, count := count s + 1\<rparr>)
          else s\<lparr>data := (data s)[nat index := RK],
                 checksum := checksum s + read_char sc RK, count := count s + 1\<rparr>)"
    by blast
  from r assms(2,3) have "r = count s + 1"
    by (simp add: c_rem_def chunk_size_def smod_nonneg split: if_splits)
  with assms(2) have "r \<noteq> 0" by simp
  with s' show ?thesis by simp
qed

lemma encrypt_loop_small:
  "encrypt_loop sc ks1 ks2 L1 L2 stop1 stop2 sz s = Inr s' \<Longrightarrow> 0 \<le> count s \<Longrightarrow>
   sz < chunk_size \<Longrightarrow> datafile s' = datafile s"
proof (induction sc ks1 ks2 L1 L2 stop1 stop2 sz s rule: encrypt_loop.induct)
  case (1 sc ks1 ks2 L1 L2 stop1 stop2 sz s)
  show ?case
  proof (cases "count s < sz")
    case False
    with "1.prems"(1) show ?thesis by (simp add: encrypt_loop.simps)
  next
    case True
    with "1.prems"(1) obtain s1 where s1: "encrypt_byte sc ks1 ks2 L1 L2 stop1 stop2 s = Inr s1"
      and l: "encrypt_loop sc ks1 ks2 L1 L2 stop1 stop2 sz s1 = Inr s'"
      by (subst (asm) encrypt_loop.simps) (auto split: sum.splits)
    have "count s + 1 < chunk_size" using True "1.prems"(3) by simp
    from encrypt_byte_small [OF s1 "1.prems"(2) this]
    have d: "datafile s1 = datafile s" "count s1 = count s + 1" by simp_all
    have "datafile s' = datafile s1"
      using "1.IH" [OF True s1 l] d(2) "1.prems"(2,3) by simp
    with d(1) show ?thesis by simp
  qed
qed

text \<open>
  A file shorter than one chunk is never written: whatever the keys, \<open>nemesis_encrypt\<close>
  leaves its bytes as they were.
\<close>

lemma nemesis_encrypt_Inr:
  assumes "nemesis_encrypt sc key1 key2 bytes = Inr (bytes', mac)"
  shows "\<exists>ks1 ks2 L1 L2 s.
    generate_keystreams key1 key2 = Inr (ks1, ks2) \<and>
    L1 = int (length (ks1 ! 0)) \<and> L2 = int (length (ks2 ! 0)) \<and>
    encrypt_loop sc ks1 ks2 L1 L2 (floor_half L1) (floor_half L2) (int (length bytes))
          \<lparr>datafile = snd (file_read (nat chunk_size) \<lparr>contents = bytes, offset = 0\<rparr>),
           data = fst (file_read (nat chunk_size) \<lparr>contents = bytes, offset = 0\<rparr>),
           count = 0, checksum = 0\<rparr> = Inr s \<and>
    bytes' = contents (datafile s) \<and> mac = MAC (checksum s)"
proof -
  from assms obtain p where g: "generate_keystreams key1 key2 = Inr p"
    and rest: "(case p of (keystream1, keystream2) \<Rightarrow>
     bindE (getitem keystream1 0) (\<lambda>K1.
     bindE (getitem keystream2 0) (\<lambda>K2.
     bindE (as_c_int (int (length K1))) (\<lambda>L1.
     bindE (as_c_int (int (length K2))) (\<lambda>L2.
       (let (chunk, f) = file_read (nat chunk_size) \<lparr>contents = bytes, offset = 0\<rparr>
        in bindE (encrypt_loop sc keystream1 keystream2 L1 L2
                    (floor_half L1) (floor_half L2) (int (length bytes))
                    \<lparr>datafile = f, data = chunk, count = 0, checksum = 0\<rparr>) (\<lambda>s.
           Inr (contents (datafile s), MAC (checksum s)))))))))
      = Inr (bytes', mac)"
    unfolding nemesis_encrypt_def by (subst (asm) bindE_eq_Inr) blast
  obtain ks1 ks2 where p: "p = (ks1, ks2)" by (cases p)
  from rest [unfolded p prod.case bindE_eq_Inr] obtain K1 K2 L1 L2 where
    K: "getitem ks1 0 = Inr K1" "getitem ks2 0 = Inr K2"
    and L: "as_c_int (int (length K1)) = Inr L1" "as_c_int (int (length K2)) = Inr L2"
    and rest2: "(let (chunk, f) = file_read (nat chunk_size) \<lparr>contents = bytes, offset = 0\<rparr>
        in bindE (encrypt_loop sc ks1 ks2 L1 L2
                    (floor_half L1) (floor_half L2) (int (length bytes))
                    \<lparr>datafile = f, data = chunk, count = 0, checksum = 0\<rparr>) (\<lambda>s.
           Inr (contents (datafile s), MAC (checksum s)))) = Inr (bytes', mac)"
    by blast
  from rest2 have "bindE (encrypt_loop sc ks1 ks2 L1 L2
                    (floor_half L1) (floor_half L2) (int (length bytes))
          \<lparr>datafile = snd (file_read (nat chunk_size) \<lparr>contents = bytes, offset = 0\<rparr>),
           data = fst (file_read (nat chunk_size) \<lparr>contents = bytes, offset = 0\<rparr>),
           count = 0, checksum = 0\<rparr>) (\<lambda>s.
           Inr (contents (datafile s), MAC (checksum s))) = Inr (bytes', mac)"
    by (simp add: Let_def split_beta)
  then obtain s where
    s: "encrypt_loop sc ks1 ks2 L1 L2 (floor_half L1) (floor_half L2) (int (length bytes))
          \<lparr>datafile = snd (file_read (nat chunk_size) \<lparr>contents = bytes, offset = 0\<rparr>),
           data = fst (file_read (nat chunk_size) \<lparr>contents = bytes, offset = 0\<rparr>),
           count = 0, checksum = 0\<rparr> = Inr s"
    and r: "bytes' = contents (datafile s)" "mac = MAC (checksum s)"
    unfolding bindE_eq_Inr by auto
  have "L1 = int (length (ks1 ! 0))" "L2 = int (length (ks2 ! 0))"
    using getitem_nonneg [OF K(1)] getitem_nonneg [OF K(2)] as_c_int_Inr [OF L(1)]
      as_c_int_Inr [OF L(2)] by simp_all
  with g [unfolded p] s r show ?thesis by blast
qed

text \<open>
  A file shorter than one chunk is never written: whatever the keys, \<open>nemesis_encrypt\<close>
  leaves its bytes as they were.
\<close>

lemma small_file_left_unchanged:
  assumes "nemesis_encrypt sc key1 key2 bytes = Inr (bytes', mac)"
    "int (length bytes) < chunk_size"
  shows "bytes' = bytes"
proof -
  from nemesis_encrypt_Inr [OF assms(1)] obtain ks1 ks2 L1 L2 s where
    l: "encrypt_loop sc ks1 ks2 L1 L2 (floor_half L1) (floor_half L2) (int (length bytes))
          \<lparr>datafile = snd (file_read (nat chunk_size) \<lparr>contents = bytes, offset = 0\<rparr>),
           data = fst (file_read (nat chunk_size) \<lparr>contents = bytes, offset = 0\<rparr>),
           count = 0, checksum = 0\<rparr> = Inr s"
    and b: "bytes' = contents (datafile s)"
    by blast
  from encrypt_loop_small [OF l _ assms(2)]
  have "datafile s = snd (file_read (nat chunk_size) \<lparr>contents = bytes, offset = 0\<rparr>)" by simp
  with b show ?thesis by (simp add: file_read_def Let_def)
qed

text \<open>Where \<open>char\<close> is unsigned the checksum never decreases.\<close>

lemma encrypt_loop_checksum_unsigned:
  "encrypt_loop False ks1 ks2 L1 L2 stop1 stop2 sz s = Inr s' \<Longrightarrow> checksum s \<le> checksum s'"
proof (induction False ks1 ks2 L1 L2 stop1 stop2 sz s rule: encrypt_loop.induct)
  case (1 ks1 ks2 L1 L2 stop1 stop2 sz s)
  show ?case
  proof (cases "count s < sz")
    case False
    with "1.prems" show ?thesis by (simp add: encrypt_loop.simps)
  next
    case True
    with "1.prems" obtain s1 where s1: "encrypt_byte False ks1 ks2 L1 L2 stop1 stop2 s = Inr s1"
      and l: "encrypt_loop False ks1 ks2 L1 L2 stop1 stop2 sz s1 = Inr s'"
      by (subst (asm) encrypt_loop.simps) (auto split: sum.splits)
    from encrypt_byte_addend [OF s1] have "checksum s \<le> checksum s1"
      by (auto simp: read_char_def)
    with "1.hyps" [OF True s1 l] show ?thesis by simp
  qed
qed

text \<open>
  C2 (the code departs from it): a file of the single byte 0, encrypted with the keys \<open>ab\<close>
  and \<open>cd\<close>. The mixing bytes at position 0 are 97 and 99 and the byte is transformed to
  138 in the buffer, but the final partial chunk is never written back: the file is left
  holding 0, on either kind of platform.
\<close>

theorem final_partial_chunk_not_written:
  "generate_keystreams [97, 98] [99, 100] = Inr ([[97, 98], [95]], [[99, 100], [107]]) \<and>
   mixing_bytes [[97, 98], [95]] [[99, 100], [107]] 2 2 1 1 0 = Inr (97, 99) \<and>
   rk_encrypt True 97 99 0 = Inr 138 \<and> rk_encrypt False 97 99 0 = Inr 138 \<and>
   nemesis_encrypt True [97, 98] [99, 100] [0] = Inr ([0], MAC (read_char True 138)) \<and>
   nemesis_encrypt False [97, 98] [99, 100] [0] = Inr ([0], MAC (read_char False 138))"
  by (simp add: keystreams_ab_cd mixing_bytes_ab_cd_0 rk_encrypt_97_99_0
      nemesis_encrypt_one_byte_signed nemesis_encrypt_one_byte_unsigned read_char_def MAC_def)

text \<open>
  C3 (the code departs from it where \<open>char\<close> is signed): the same run. The one ciphertext
  byte produced is 138. Read back through a signed \<open>char\<close> it is added to the checksum as
  \<open>-118\<close>, and the code printed is made of the C remainders \<open>-118\<close>; through an unsigned
  \<open>char\<close> the addend is 138 and the code is \<open>(138, 138, 138, 138)\<close>.
\<close>

theorem checksum_adds_signed_chars:
  "rk_encrypt True 97 99 0 = Inr 138 \<and> read_char True 138 = - 118 \<and>
   nemesis_encrypt True [97, 98] [99, 100] [0] = Inr ([0], (- 118, - 118, - 118, - 118)) \<and>
   read_char False 138 = 138 \<and>
   nemesis_encrypt False [97, 98] [99, 100] [0] = Inr ([0], (138, 138, 138, 138))"
  by (simp add: rk_encrypt_97_99_0 nemesis_encrypt_one_byte_signed
      nemesis_encrypt_one_byte_unsigned read_char_def)

text \<open>
  C6 (the code departs from it): the key of two characters U+00E9 (e with an acute accent). Its byte sequence, row 0,
  has four bytes, but \<open>generate_keystreams\<close> counts the two characters of the string: it
  builds one generated row, of length 1, where a key of four bytes has two generated rows,
  of lengths 3 and 2. \<open>nemesis_encrypt\<close> takes the length from row 0 and reads past the end
  of that row.
\<close>

theorem keystreams_of_non_ascii_key:
  "as_bytes [233, 233] = Inr [195, 169, 195, 169] \<and>
   generate_keystreams [233, 233] [97, 98]
     = Inr ([[195, 169, 195, 169], [219]], [[97, 98], [128]]) \<and>
   nemesis_encrypt True [233, 233] [97, 98] [0, 0] = Inl IndexError \<and>
   nemesis_encrypt False [233, 233] [97, 98] [0, 0] = Inl IndexError"
  by (simp add: keystreams_e_acute_twice nemesis_encrypt_e_acute_twice utf8_char_def bindE_def)

text \<open>
  For a key of ASCII characters the bytes are the characters, and the matrix has the shape
  the data model gives it: \<open>\<lceil>L/2\<rceil>\<close> generated rows, row \<open>i\<close> of length \<open>L - i\<close> for every
  \<open>i\<close> from 0 on, every entry a byte.
\<close>

lemma matrix_of_ascii_shape:
  assumes "matrix_of key key' ks K'" "\<forall>c\<in>set key. c < 128"
  shows "ks ! 0 = map int key \<and> int (length ks) = 1 + ceil_half (int (length key)) \<and>
         (\<forall>i<length ks. length (ks ! i) = length key - i \<and>
                         (\<forall>b\<in>set (ks ! i). 0 \<le> b \<and> b < 256))"
proof -
  note m = matrix_of_shape [OF assms(1)]
  from m(1) as_bytes_ascii [OF assms(2)] have z: "ks ! 0 = map int key" by simp
  have "\<forall>i<length ks. length (ks ! i) = length key - i \<and> (\<forall>b\<in>set (ks ! i). 0 \<le> b \<and> b < 256)"
  proof (intro allI impI conjI)
    fix i assume i: "i < length ks"
    show "length (ks ! i) = length key - i"
    proof (cases "i = 0")
      case True
      with z show ?thesis by simp
    next
      case False
      then have "1 \<le> i" by simp
      from m(3) [OF this i] show ?thesis .
    qed
    show "\<forall>b\<in>set (ks ! i). 0 \<le> b \<and> b < 256" using m(4) nth_mem [OF i] by blast
  qed
  with z m(2) show ?thesis by blast
qed

subsection \<open>The recurrence of a row element\<close>

lemma mapE_total: "(\<And>x. x \<in> set xs \<Longrightarrow> \<exists>y. f x = Inr y) \<Longrightarrow> \<exists>ys. mapE f xs = Inr ys"
proof (induction xs)
  case Nil
  show ?case by simp
next
  case (Cons x xs)
  from Cons.prems [of x] obtain y where y: "f x = Inr y" by auto
  from Cons.IH Cons.prems obtain ys where ys: "mapE f xs = Inr ys" by auto
  from y ys show ?case by (simp add: bindE_Inr)
qed

lemma getitem_in_range: "0 \<le> i \<Longrightarrow> nat i < length xs \<Longrightarrow> getitem xs i = Inr (xs ! nat i)"
  by (simp add: getitem_def Let_def)

lemma getitem_minus_one: "xs \<noteq> [] \<Longrightarrow> getitem xs (- 1) = Inr (xs ! (length xs - 1))"
proof -
  assume "xs \<noteq> []"
  then have n: "0 < length xs" by simp
  then have e: "nat (- 1 + int (length xs)) = length xs - 1" by simp
  have "getitem xs (- 1) = Inr (xs ! nat (- 1 + int (length xs)))"
    using n by (intro getitem_neg) simp_all
  then show ?thesis by (simp only: e)
qed

lemma byte_product_bound:
  assumes "0 \<le> a" "a \<le> 255" "0 \<le> b" "b \<le> 255"
  shows "0 \<le> a * b \<and> a * b \<le> (65025::int)"
proof -
  have "a * b \<le> 255 * 255" using assms by (intro mult_mono) simp_all
  moreover have "0 \<le> a * b" using assms by simp
  ultimately show ?thesis by simp
qed

lemma ascii_product_bound:
  assumes "0 \<le> a" "a \<le> 127" "0 \<le> b" "b \<le> 127" "0 \<le> c" "c \<le> 127"
  shows "0 \<le> a * b * c \<and> a * b * c \<le> (2048383::int)"
proof -
  have ab: "a * b \<le> 127 * 127" using assms by (intro mult_mono) simp_all
  have ab0: "0 \<le> a * b" using assms by simp
  have "a * b * c \<le> (127 * 127) * 127" using ab ab0 assms by (intro mult_mono) simp_all
  moreover have "0 \<le> a * b * c" using ab0 assms by simp
  ultimately show ?thesis by simp
qed

text \<open>
  One turn of the inner loop on keys of ASCII characters, none longer than 1048 characters:
  nothing is read outside a key, no sum leaves the range of an \<open>int\<close>, and the new value
  of \<open>aux\<close> is that of the recurrence.
\<close>

lemma inner_step_value:
  assumes K: "length K = nat L" "\<forall>b\<in>set K. 0 \<le> b \<and> b \<le> 127"
    and K': "length K' = nat L'" "\<forall>b\<in>set K'. 0 \<le> b \<and> b \<le> 127"
    and L: "0 < L" "L \<le> 1048" "L' \<le> 1048"
    and k: "k < nat L'" and j: "0 \<le> j" "j < L"
    and aux: "0 \<le> aux" "aux \<le> 130050 + int k * 2048383"
  shows "inner_step K K' L L' j aux k = Inr (spec_update K K' (nat L) (nat L') (nat j) aux k)"
    and "0 \<le> spec_update K K' (nat L) (nat L') (nat j) aux k"
    and "spec_update K K' (nat L) (nat L') (nat j) aux k \<le> 130050 + int (Suc k) * 2048383"
proof -
  have L': "0 < L'" using k by simp
  have kb: "int k \<le> 1047" using k L(3) by simp
  have 1: "getitem K' (int k) = Inr (K' ! k)" using k K'(1) by (simp add: getitem_in_range)
  have "INT_MIN \<le> int k + j" "int k + j \<le> INT_MAX"
    using kb j L(2) by (simp_all add: INT_MIN_def INT_MAX_def)
  then have 2: "c_int_expr (int k + j) = Inr (int k + j)" by (rule c_int_expr_in_range)
  have 3: "py_mod (int k + j) L' = Inr ((int k + j) mod L')" using L' by (simp add: py_mod_def)
  have n1: "nat ((int k + j) mod L') = (k + nat j) mod nat L'"
    using L' j by (simp add: nat_mod_distrib nat_add_distrib)
  have m1: "(k + nat j) mod nat L' < length K'" using L' K'(1) by simp
  have 4: "getitem K' ((int k + j) mod L') = Inr (K' ! ((k + nat j) mod nat L'))"
    using getitem_in_range [of "(int k + j) mod L'" K'] L' m1 by (simp add: n1)
  have ub: "aux + int k \<le> INT_MAX"
  proof -
    have "aux + int k \<le> 130050 + 1047 * 2048383 + 1047" using aux(2) kb by linarith
    then show ?thesis by (simp add: INT_MAX_def)
  qed
  have "INT_MIN \<le> aux + int k" using aux(1) by (simp add: INT_MIN_def)
  then have 5: "c_int_expr (aux + int k) = Inr (aux + int k)" using ub by (rule c_int_expr_in_range)
  have 6: "py_mod (aux + int k) L = Inr ((aux + int k) mod L)" using L(1) by (simp add: py_mod_def)
  have m2: "nat ((aux + int k) mod L) < length K" using L(1) K(1) by simp
  have 7: "getitem K ((aux + int k) mod L) = Inr (K ! nat ((aux + int k) mod L))"
    using getitem_in_range [of "(aux + int k) mod L" K] L(1) m2 by simp
  define a where "a = K' ! k"
  define b where "b = K' ! ((k + nat j) mod nat L')"
  define c where "c = K ! nat ((aux + int k) mod L)"
  have "a \<in> set K'" using k K'(1) by (simp add: a_def)
  then have a: "0 \<le> a" "a \<le> 127" using K'(2) by auto
  have "b \<in> set K'" using m1 by (simp add: b_def)
  then have b: "0 \<le> b" "b \<le> 127" using K'(2) by auto
  have "c \<in> set K" using m2 by (simp add: c_def)
  then have c: "0 \<le> c" "c \<le> 127" using K(2) by auto
  from ascii_product_bound [OF a b c] have p: "0 \<le> a * b * c" "a * b * c \<le> 2048383" by simp_all
  have v: "spec_update K K' (nat L) (nat L') (nat j) aux k = aux + a * b * c"
    using L(1) by (simp add: spec_update_def a_def b_def c_def)
  show lo: "0 \<le> spec_update K K' (nat L) (nat L') (nat j) aux k" using v p(1) aux(1) by simp
  show hi: "spec_update K K' (nat L) (nat L') (nat j) aux k \<le> 130050 + int (Suc k) * 2048383"
    using v p(2) aux(2) by simp
  have "aux + a * b * c \<le> INT_MAX"
  proof -
    have "aux + a * b * c \<le> 130050 + 1047 * 2048383 + 2048383" using aux(2) kb p(2) by linarith
    then show ?thesis by (simp add: INT_MAX_def)
  qed
  moreover have "INT_MIN \<le> aux + a * b * c" using aux(1) p(1) by (simp add: INT_MIN_def)
  ultimately have 8: "as_c_int (aux + a * b * c) = Inr (aux + a * b * c)" by (simp add: as_c_int_def)
  show "inner_step K K' L L' j aux k = Inr (spec_update K K' (nat L) (nat L') (nat j) aux k)"
    unfolding inner_step_def v
    by (simp only: 1 2 3 4 5 6 7 bindE_Inr a_def [symmetric] b_def [symmetric] c_def [symmetric] 8)
qed

lemma inner_loop_value:
  assumes K: "length K = nat L" "\<forall>b\<in>set K. 0 \<le> b \<and> b \<le> 127"
    and K': "length K' = nat L'" "\<forall>b\<in>set K'. 0 \<le> b \<and> b \<le> 127"
    and L: "0 < L" "L \<le> 1048" "L' \<le> 1048"
    and j: "0 \<le> j" "j < L" and n: "n \<le> nat L'"
    and aux: "0 \<le> aux" "aux \<le> 130050 + int k0 * 2048383"
  shows "inner_loop K K' L L' j aux [k0..<n]
           = Inr (foldl (spec_update K K' (nat L) (nat L') (nat j)) aux [k0..<n])"
  using aux
proof (induction "n - k0" arbitrary: k0 aux)
  case 0
  then have e: "[k0..<n] = []" by simp
  show ?case unfolding e by simp
next
  case (Suc d)
  then have k0: "k0 < n" by simp
  then have u: "[k0..<n] = k0 # [Suc k0..<n]" by (rule upt_conv_Cons)
  have k: "k0 < nat L'" using k0 n by simp
  note s = inner_step_value [OF K K' L k j Suc.prems]
  have d: "d = n - Suc k0" using Suc.hyps(2) by simp
  from Suc.hyps(1) [OF d s(2,3)] s(1) show ?case unfolding u by (simp add: bindE_Inr)
qed

text \<open>
  One element of a generated row: the loop appends the value of the recurrence modulo
  256, the second factor of \<open>b\<close> being the element of index \<open>L - i\<close> of the previous row,
  its last, when \<open>j = 0\<close>, and its first element otherwise.
\<close>

lemma row_elem_value:
  assumes prev: "length prev = nat (L - i) + 1" "\<forall>b\<in>set prev. 0 \<le> b \<and> b \<le> 255"
    and K: "length K = nat L" "\<forall>b\<in>set K. 0 \<le> b \<and> b \<le> 127"
    and K': "length K' = nat L'" "\<forall>b\<in>set K'. 0 \<le> b \<and> b \<le> 127"
    and L: "L \<le> 1048" "L' \<le> 1048"
    and i: "1 \<le> i" and j: "int j < L - i"
  shows "\<exists>v. row_elem prev K K' L L' i j = Inr v \<and> 0 \<le> v \<and> v < 256 \<and>
             Some v = spec_row_elem prev K K' (nat L) (nat L') (nat i) j
                        (if j = 0 then nat L - nat i else 0)"
proof -
  have L0: "0 < L" using i j by linarith
  have jL: "int j < L" using i j by linarith
  have len: "length prev = nat L - nat i + 1" using prev(1) i by (simp add: nat_diff_distrib)
  have d: "nat (L - i) = nat L - nat i" using i by (simp add: nat_diff_distrib)
  have jn: "j < nat L - nat i" using j d by linarith
  define p where "p = (if j = 0 then nat L - nat i else 0)"
  have pl: "p < length prev" using len by (simp add: p_def)
  have 1: "getitem prev (int j) = Inr (prev ! j)" using jn len by (simp add: getitem_in_range)
  have 2: "getitem prev (L - i) = Inr (prev ! (nat L - nat i))"
    using getitem_in_range [of "L - i" prev] j len d by simp
  have 3: "getitem prev (int j + 1) = Inr (prev ! (j + 1))"
    using getitem_in_range [of "int j + 1" prev] jn len by (simp add: nat_add_distrib)
  have 4: "getitem prev (min 0 (int j - 1)) = Inr (prev ! p)"
  proof (cases "j = 0")
    case True
    have "prev \<noteq> []" using len by auto
    from getitem_minus_one [OF this] True len show ?thesis by (simp add: p_def)
  next
    case False
    then have "min 0 (int j - 1) = 0" by simp
    moreover have "getitem prev 0 = Inr (prev ! 0)" using len by (simp add: getitem_in_range)
    ultimately show ?thesis using False by (simp add: p_def)
  qed
  define a where "a = prev ! j"
  define b where "b = prev ! (nat L - nat i)"
  define c where "c = prev ! (j + 1)"
  define e where "e = prev ! p"
  have "a \<in> set prev" "b \<in> set prev" "c \<in> set prev" "e \<in> set prev"
    using jn len pl by (simp_all add: a_def b_def c_def e_def)
  then have r: "0 \<le> a" "a \<le> 255" "0 \<le> b" "b \<le> 255" "0 \<le> c" "c \<le> 255" "0 \<le> e" "e \<le> 255"
    using prev(2) by auto
  from byte_product_bound [OF r(1-4)] have ab: "0 \<le> a * b" "a * b \<le> 65025" by simp_all
  from byte_product_bound [OF r(5-8)] have ce: "0 \<le> c * e" "c * e \<le> 65025" by simp_all
  have 5: "as_c_int (a * b) = Inr (a * b)"
    using ab by (simp add: as_c_int_def INT_MIN_def INT_MAX_def)
  have 6: "as_c_int (a * b + c * e) = Inr (a * b + c * e)"
    using ab ce by (simp add: as_c_int_def INT_MIN_def INT_MAX_def)
  have aux: "0 \<le> a * b + c * e" "a * b + c * e \<le> 130050 + int 0 * 2048383" using ab ce by simp_all
  have j0: "0 \<le> int j" by simp
  have 7: "inner_loop K K' L L' (int j) (a * b + c * e) [0..<nat L']
             = Inr (spec_acc K K' (nat L) (nat L') j (a * b + c * e))"
    using inner_loop_value [OF K K' L0 L j0 jL order_refl aux] by (simp add: spec_acc_def)
  define v where "v = spec_acc K K' (nat L) (nat L') j (a * b + c * e) mod 256"
  have 8: "py_mod (spec_acc K K' (nat L) (nat L') j (a * b + c * e)) 256 = Inr v"
    by (simp add: py_mod_def v_def)
  have "row_elem prev K K' L L' i j = Inr v"
    unfolding row_elem_def
    by (simp only: 1 2 3 4 bindE_Inr a_def [symmetric] b_def [symmetric] c_def [symmetric]
        e_def [symmetric] 5 6 7 8)
  moreover have "0 \<le> v \<and> v < 256" by (simp add: v_def)
  moreover have "Some v = spec_row_elem prev K K' (nat L) (nat L') (nat i) j p"
    using jn len pl by (simp add: spec_row_elem_def v_def a_def b_def c_def e_def)
  ultimately show ?thesis unfolding p_def by blast
qed

subsection \<open>The generator returns on short ASCII keys\<close>

lemma new_row_total:
  assumes ks: "ks \<noteq> []" "hd ks = K"
    and prev: "length (last ks) = nat (L - int i) + 1" "\<forall>b\<in>set (last ks). 0 \<le> b \<and> b \<le> 255"
    and K: "length K = nat L" "\<forall>b\<in>set K. 0 \<le> b \<and> b \<le> 127"
    and K': "length K' = nat L'" "\<forall>b\<in>set K'. 0 \<le> b \<and> b \<le> 127"
    and L: "L \<le> 1048" "L' \<le> 1048" and i: "1 \<le> i"
  shows "\<exists>row. new_row ks K' L L' i = Inr row \<and> length row = nat (L - int i) \<and>
           (\<forall>b\<in>set row. 0 \<le> b \<and> b \<le> 255)"
proof -
  have i': "1 \<le> int i" using i by simp
  have "\<exists>row. mapE (row_elem (last ks) K K' L L' (int i)) [0..<nat (L - int i)] = Inr row"
  proof (rule mapE_total)
    fix j assume "j \<in> set [0..<nat (L - int i)]"
    then have "int j < L - int i" by simp
    from row_elem_value [OF prev K K' L i' this]
    show "\<exists>v. row_elem (last ks) K K' L L' (int i) j = Inr v" by blast
  qed
  then obtain row where row: "new_row ks K' L L' i = Inr row"
    using ks by (auto simp: new_row_def getitem_prev getitem_first bindE_Inr)
  from new_row_Inr [OF row ks(1)] have l: "length row = nat (L - int i)"
    and e: "\<forall>j<nat (L - int i). row_elem (last ks) (hd ks) K' L L' (int i) j = Inr (row ! j)"
    by simp_all
  have "\<forall>b\<in>set row. 0 \<le> b \<and> b \<le> 255"
  proof
    fix b assume "b \<in> set row"
    then obtain j where j: "j < length row" "b = row ! j" by (auto simp: in_set_conv_nth)
    with l e have "row_elem (last ks) (hd ks) K' L L' (int i) j = Inr b" by simp
    from row_elem_byte [OF this] show "0 \<le> b \<and> b \<le> 255" by simp
  qed
  with row l show ?thesis by blast
qed

lemma build_rows_total:
  assumes K: "length K = nat L" "\<forall>b\<in>set K. 0 \<le> b \<and> b \<le> 127"
    and K': "length K' = nat L'" "\<forall>b\<in>set K'. 0 \<le> b \<and> b \<le> 127"
    and L: "L \<le> 1048" "L' \<le> 1048"
    and ks: "ks \<noteq> []" "hd ks = K"
    and prev: "length (last ks) = nat (L - int i0) + 1" "\<forall>b\<in>set (last ks). 0 \<le> b \<and> b \<le> 255"
    and i0: "1 \<le> i0" and n: "int n \<le> L + 1"
  shows "\<exists>ks'. build_rows ks K' L L' [i0..<n] = Inr ks'"
  using ks prev i0
proof (induction "n - i0" arbitrary: i0 ks)
  case 0
  then have e: "[i0..<n] = []" by simp
  show ?case unfolding e by simp
next
  case (Suc d)
  then have lt: "i0 < n" by simp
  then have u: "[i0..<n] = i0 # [Suc i0..<n]" by (rule upt_conv_Cons)
  from new_row_total [OF Suc.prems(1-4) K K' L Suc.prems(5)] obtain row where
    row: "new_row ks K' L L' i0 = Inr row" "length row = nat (L - int i0)"
      "\<forall>b\<in>set row. 0 \<le> b \<and> b \<le> 255" by blast
  show ?case
  proof (cases "Suc i0 < n")
    case False
    with lt have e: "[Suc i0..<n] = []" by simp
    show ?thesis unfolding u using row(1) by (simp add: bindE_Inr e)
  next
    case True
    have d: "d = n - Suc i0" using Suc.hyps(2) by simp
    have "\<exists>ks'. build_rows (ks @ [row]) K' L L' [Suc i0..<n] = Inr ks'"
    proof (rule Suc.hyps(1) [OF d])
      show "ks @ [row] \<noteq> []" by simp
      show "hd (ks @ [row]) = K" using Suc.prems(1,2) by simp
      show "length (last (ks @ [row])) = nat (L - int (Suc i0)) + 1"
        using row(2) True n by simp
      show "\<forall>b\<in>set (last (ks @ [row])). 0 \<le> b \<and> b \<le> 255" using row(3) by simp
      show "1 \<le> Suc i0" by simp
    qed
    with row(1) show ?thesis unfolding u by (simp add: bindE_Inr)
  qed
qed

lemma ascii_bytes:
  assumes "\<forall>c\<in>set key. c < 128"
  shows "as_bytes key = Inr (map int key)" "length (map int key) = nat (int (length key))"
    "\<forall>b\<in>set (map int key). 0 \<le> b \<and> b \<le> 127"
  using assms as_bytes_ascii [OF assms] by auto

lemma first_rows_total:
  assumes K: "length K = nat L" "\<forall>b\<in>set K. 0 \<le> b \<and> b \<le> 127"
    and K': "length K' = nat L'" "\<forall>b\<in>set K'. 0 \<le> b \<and> b \<le> 127"
    and L: "0 \<le> L" "L \<le> 1048" "L' \<le> 1048"
  shows "\<exists>ks. build_rows [K] K' L L' [1..<nat (1 + ceil_half L)] = Inr ks"
proof (cases "L = 0")
  case True
  then have e: "[1..<nat (1 + ceil_half L)] = []" by (simp add: ceil_half_def)
  show ?thesis unfolding e by simp
next
  case False
  with L(1) have L1: "1 \<le> L" by simp
  show ?thesis
  proof (rule build_rows_total [OF K K' L(2,3)])
    show "[K] \<noteq> []" by simp
    show "hd [K] = K" by simp
    show "length (last [K]) = nat (L - int 1) + 1" using K(1) L1 by simp
    show "\<forall>b\<in>set (last [K]). 0 \<le> b \<and> b \<le> 255" using K(2) by auto
    show "(1::nat) \<le> 1" by simp
    show "int (nat (1 + ceil_half L)) \<le> L + 1"
      using ceil_half_bounds [of L] L1 by linarith
  qed
qed

text \<open>
  For keys of ASCII characters, none longer than 1048 characters, \<open>generate_keystreams\<close>
  returns: nothing is raised and no sum of the accumulator wraps around.
\<close>

lemma generate_keystreams_total:
  assumes "\<forall>c\<in>set key1. c < 128" "\<forall>c\<in>set key2. c < 128"
    and "length key1 \<le> 1048" "length key2 \<le> 1048"
  shows "\<exists>ks1 ks2. generate_keystreams key1 key2 = Inr (ks1, ks2)"
proof -
  define L1 where "L1 = int (length key1)"
  define L2 where "L2 = int (length key2)"
  have L: "0 \<le> L1" "L1 \<le> 1048" "0 \<le> L2" "L2 \<le> 1048"
    using assms(3,4) by (simp_all add: L1_def L2_def)
  note a1 = ascii_bytes [OF assms(1), folded L1_def]
  note a2 = ascii_bytes [OF assms(2), folded L2_def]
  have c1: "as_c_int L1 = Inr L1" and c2: "as_c_int L2 = Inr L2"
    using L by (simp_all add: as_c_int_def INT_MIN_def INT_MAX_def)
  from first_rows_total [OF a1(2,3) a2(2,3) L(1,2,4)] obtain ks1 where
    ks1: "build_rows [map int key1] (map int key2) L1 L2 [1..<nat (1 + ceil_half L1)] = Inr ks1"
    by blast
  have z: "ks1 ! 0 = map int key1" by (rule matrix_rows(2) [OF ks1 ceil_half_nonneg [OF L(1)]])
  have "length ks1 = 1 + nat (ceil_half L1)"
    by (rule matrix_rows(1) [OF ks1 ceil_half_nonneg [OF L(1)]])
  then have g: "getitem ks1 0 = Inr (map int key1)" using z by (simp add: getitem_def Let_def)
  from first_rows_total [OF a2(2,3) a1(2,3) L(3,4,2)] obtain ks2 where
    ks2: "build_rows [map int key2] (map int key1) L2 L1 [1..<nat (1 + ceil_half L2)] = Inr ks2"
    by blast
  have "generate_keystreams key1 key2 = Inr (ks1, ks2)"
    unfolding generate_keystreams_def L1_def [symmetric] L2_def [symmetric]
    by (simp only: c1 c2 a1(1) a2(1) ks1 g ks2 bindE_Inr)
  then show ?thesis by blast
qed

subsection \<open>The rows of the two matrices\<close>

lemma matrix_element_value:
  assumes m: "matrix_of key key' ks (map int key')"
    and a: "\<forall>c\<in>set key. c < 128" "\<forall>c\<in>set key'. c < 128"
    and l: "length key \<le> 1048" "length key' \<le> 1048"
    and i: "1 \<le> i" "int i \<le> ceil_half (int (length key))" and j: "j < length key - i"
  shows "length (ks ! i) = length key - i \<and>
         Some (ks ! i ! j) =
           spec_row_elem (ks ! (i - 1)) (ks ! 0) (map int key') (length key) (length key') i j
             (if j = 0 then length key - i else 0)"
proof -
  define L where "L = int (length key)"
  define L' where "L' = int (length key')"
  note k = ascii_bytes [OF a(1), folded L_def]
  note k' = ascii_bytes [OF a(2), folded L'_def]
  from matrix_of_rows(1) [OF m] k(1) have z: "ks ! 0 = map int key" by simp
  from matrix_of_rows(3) [OF m i] j
  have len: "length (ks ! i) = length key - i"
    and e: "row_elem (ks ! (i - 1)) (ks ! 0) (map int key') L L' (int i) j = Inr (ks ! i ! j)"
    unfolding L_def L'_def by simp_all
  have iL: "int i < L" using j unfolding L_def by linarith
  have p1: "length (ks ! (i - 1)) = nat (L - int i) + 1"
  proof (cases "i = 1")
    case True
    with z iL show ?thesis by (simp add: L_def)
  next
    case False
    with i have "1 \<le> i - 1" "int (i - 1) \<le> ceil_half (int (length key))" by simp_all
    from matrix_of_rows(3) [OF m this] have "length (ks ! (i - 1)) = length key - (i - 1)" by simp
    with iL i(1) show ?thesis unfolding L_def by linarith
  qed
  have "int (i - 1) < int (length ks)" using matrix_of_rows(2) [OF m] i by linarith
  then have "ks ! (i - 1) \<in> set ks" by simp
  from matrix_of_shape(4) [OF m this]
  have p2: "\<forall>b\<in>set (ks ! (i - 1)). 0 \<le> b \<and> b \<le> 255" by fastforce
  have L: "L \<le> 1048" "L' \<le> 1048" using l by (simp_all add: L_def L'_def)
  have i1: "1 \<le> int i" using i(1) by simp
  have j1: "int j < L - int i" using j unfolding L_def by linarith
  from row_elem_value [OF p1 p2 k(2,3) k'(2,3) L i1 j1] obtain v where
    v: "row_elem (ks ! (i - 1)) (map int key) (map int key') L L' (int i) j = Inr v"
      "Some v = spec_row_elem (ks ! (i - 1)) (map int key) (map int key') (nat L) (nat L')
                  (nat (int i)) j (if j = 0 then nat L - nat (int i) else 0)"
    by blast
  from v(1) e have "v = ks ! i ! j" unfolding z by simp
  with v(2) len show ?thesis unfolding z by (simp add: L_def L'_def)
qed

text \<open>
  C4, amended: for two keys of ASCII characters (so that the length \<open>L\<close> of a key counts its
  characters and its bytes alike), of at most 1048 characters each (so that the C \<open>int\<close>
  \<open>aux\<close> stays below \<open>2\<^sup>3\<^sup>1\<close>), \<open>generate_keystreams\<close> returns the two matrices, row 0 of
  each is its key, and for every generated row \<open>i \<ge> 1\<close> and every \<open>j\<close> in \<open>0..L-i-1\<close> the
  row element is the value of the recurrence modulo 256 with \<open>p = L - i\<close>, the last index of
  the previous row, when \<open>j = 0\<close>, and \<open>p = 0\<close> otherwise.
\<close>

theorem keystream_row_element:
  assumes "\<forall>c\<in>set key1. c < 128" "\<forall>c\<in>set key2. c < 128"
    and "length key1 \<le> 1048" "length key2 \<le> 1048"
  shows "\<exists>ks1 ks2. generate_keystreams key1 key2 = Inr (ks1, ks2) \<and>
           ks1 ! 0 = map int key1 \<and> ks2 ! 0 = map int key2 \<and>
           (\<forall>i j. 1 \<le> i \<and> int i \<le> ceil_half (int (length key1)) \<and> j < length key1 - i \<longrightarrow>
              length (ks1 ! i) = length key1 - i \<and>
              Some (ks1 ! i ! j) =
                spec_row_elem (ks1 ! (i - 1)) (ks1 ! 0) (ks2 ! 0) (length key1) (length key2) i j
                  (if j = 0 then length key1 - i else 0)) \<and>
           (\<forall>i j. 1 \<le> i \<and> int i \<le> ceil_half (int (length key2)) \<and> j < length key2 - i \<longrightarrow>
              length (ks2 ! i) = length key2 - i \<and>
              Some (ks2 ! i ! j) =
                spec_row_elem (ks2 ! (i - 1)) (ks2 ! 0) (ks1 ! 0) (length key2) (length key1) i j
                  (if j = 0 then length key2 - i else 0))"
proof -
  from generate_keystreams_total [OF assms] obtain ks1 ks2 where
    g: "generate_keystreams key1 key2 = Inr (ks1, ks2)" by blast
  note m = generate_keystreams_matrices [OF g]
  from matrix_of_rows(1) [OF m(1)] as_bytes_ascii [OF assms(1)]
  have z1: "ks1 ! 0 = map int key1" by simp
  from matrix_of_rows(1) [OF m(2)] as_bytes_ascii [OF assms(2)]
  have z2: "ks2 ! 0 = map int key2" by simp
  note e1 = matrix_element_value [OF m(1) [unfolded z2] assms(1,2,3,4), folded z2]
  note e2 = matrix_element_value [OF m(2) [unfolded z1] assms(2,1,4,3), folded z1]
  from g z1 z2 e1 e2 show ?thesis by blast
qed

lemmas spec_eval = spec_row_elem_def spec_acc_def spec_update_def upt_rec

lemma keystreams_abc_de:
  "generate_keystreams [97, 98, 99] [100, 101]
     = Inr ([[97, 98, 99], [100, 81], [64]], [[100, 101], [10]])"
  by (simp add: keystream_eval)

theorem keystream_row_element_witness:
  "generate_keystreams [97, 98, 99] [100, 101]
     = Inr ([[97, 98, 99], [100, 81], [64]], [[100, 101], [10]]) \<and>
   Some 64 = spec_row_elem [100, 81] [97, 98, 99] [100, 101] 3 2 2 0 1"
proof -
  have h: "\<forall>c\<in>set [97, 98, 99 :: nat]. c < 128" "\<forall>c\<in>set [100, 101 :: nat]. c < 128"
    "length [97, 98, 99 :: nat] \<le> 1048" "length [100, 101 :: nat] \<le> 1048" by simp_all
  from keystream_row_element [OF h] obtain ks1 ks2 where
    g: "generate_keystreams [97, 98, 99] [100, 101] = Inr (ks1, ks2)"
    and e: "\<forall>i j. 1 \<le> i \<and> int i \<le> ceil_half (int (length [97, 98, 99 :: nat])) \<and>
                  j < length [97, 98, 99 :: nat] - i \<longrightarrow>
              length (ks1 ! i) = length [97, 98, 99 :: nat] - i \<and>
              Some (ks1 ! i ! j) =
                spec_row_elem (ks1 ! (i - 1)) (ks1 ! 0) (ks2 ! 0)
                  (length [97, 98, 99 :: nat]) (length [100, 101 :: nat]) i j
                  (if j = 0 then length [97, 98, 99 :: nat] - i else 0)"
    by blast
  from g keystreams_abc_de have k: "ks1 = [[97, 98, 99], [100, 81], [64]]"
    "ks2 = [[100, 101], [10]]" by simp_all
  have c: "(1::nat) \<le> 2 \<and> int 2 \<le> ceil_half (int (length [97, 98, 99 :: nat])) \<and>
           (0::nat) < length [97, 98, 99 :: nat] - 2" by (simp add: ceil_half_def)
  from e [rule_format, OF c] have "Some (ks1 ! 2 ! 0) =
      spec_row_elem (ks1 ! (2 - 1)) (ks1 ! 0) (ks2 ! 0)
        (length [97, 98, 99 :: nat]) (length [100, 101 :: nat]) 2 0
        (if (0::nat) = 0 then length [97, 98, 99 :: nat] - 2 else 0)" by blast
  then have "Some 64 = spec_row_elem [100, 81] [97, 98, 99] [100, 101] 3 2 2 0 1"
    unfolding k by (simp add: numeral_3_eq_3 numeral_2_eq_2)
  with keystreams_abc_de show ?thesis by blast
qed

text \<open>
  C4 as stated fails: with keys \<open>abc\<close> and \<open>de\<close> the previous row of row 2 is \<open>[100, 81]\<close>,
  which has no element of index \<open>L - 1 = 2\<close>; element 0 of row 2 is 64, the value of the
  recurrence with \<open>p = L - i = 1\<close>, and with \<open>p = 0\<close> the recurrence gives 67.
\<close>

theorem keystream_row_element_counterexample:
  "generate_keystreams [97, 98, 99] [100, 101]
     = Inr ([[97, 98, 99], [100, 81], [64]], [[100, 101], [10]]) \<and>
   spec_row_elem [100, 81] [97, 98, 99] [100, 101] 3 2 2 0 (3 - 1) = None \<and>
   spec_row_elem [100, 81] [97, 98, 99] [100, 101] 3 2 2 0 (3 - 2) = Some 64 \<and>
   spec_row_elem [100, 81] [97, 98, 99] [100, 101] 3 2 2 0 0 = Some 67"
  by (simp add: keystreams_abc_de spec_eval)

subsection \<open>The stops of \<open>nemesis_encrypt\<close> on a key of odd length\<close>

lemma keystreams_abc_def:
  "generate_keystreams [97, 98, 99] [100, 101, 102]
     = Inr ([[97, 98, 99], [136, 139], [38]], [[100, 101, 102], [150, 229], [13]])"
  by (simp add: keystream_eval)

lemma stops_of_length_3: "floor_half 3 = 1 \<and> ceil_half 3 = 2"
  using odd_length_stops [of 1] by simp

lemma mixing_bytes_abc_def:
  "mixing_bytes [[97, 98, 99], [136, 139], [38]] [[100, 101, 102], [150, 229], [13]] 3 3
     (floor_half 3) (floor_half 3) 0 = Inr (97, 100)"
  by (simp add: stops_of_length_3 mixing_eval)

lemma claimed_sums_abc_def:
  "(\<Sum>i<nat (ceil_half 3). [[97, 98, 99], [136, 139], [38]] ! i ! nat (0 mod (3 - int i))) mod 256
     = (233::int)"
  "(\<Sum>i<nat (ceil_half 3). [[100, 101, 102], [150, 229], [13]] ! i ! nat (0 mod (3 - int i))) mod 256
     = (250::int)"
  by (simp_all add: stops_of_length_3 eval_nat_numeral lessThan_Suc)

lemma rk_encrypt_abc_def: "rk_encrypt sc 97 100 0 = Inr 79" "rk_encrypt sc 233 250 0 = Inr 19"
  by (simp_all add: rk_encrypt_value spec_rk_encrypt_def ODD_explicit)

lemma nemesis_encrypt_abc_def:
  "nemesis_encrypt sc [97, 98, 99] [100, 101, 102] [0] = Inr ([0], (79, 79, 79, 79))"
  by (simp add: encrypt_eval keystreams_abc_def mixing_eval ODD_explicit)

text \<open>
  C5 fails on keys of odd length. \<open>nemesis_encrypt\<close> is compiled under \<open>cdivision(True)\<close>, so
  in \<open>stop1 = int(ceil(L1 / 2))\<close> the quotient is C's integer division and \<open>stop1\<close> is
  \<open>\<lfloor>L1/2\<rfloor>\<close>, one less than the \<open>\<lceil>L1/2\<rceil>\<close> of the claim and of \<open>generate_keystreams\<close>: the row
  of index \<open>\<lceil>L1/2\<rceil> - 1\<close> is left out of the sum. With keys \<open>abc\<close> and \<open>def\<close> and a file
  holding the byte 0, the mixing bytes at position 0 are 97 and 100, the entries of row 0
  alone, where the sums of the claim are 233 and 250; the byte 0 is transformed to 79, and
  79 is the code printed, where the bytes of the claim would give 19.
\<close>

theorem mixing_rows_of_odd_key:
  "generate_keystreams [97, 98, 99] [100, 101, 102]
     = Inr ([[97, 98, 99], [136, 139], [38]], [[100, 101, 102], [150, 229], [13]]) \<and>
   floor_half 3 = 1 \<and> ceil_half 3 = 2 \<and>
   mixing_bytes [[97, 98, 99], [136, 139], [38]] [[100, 101, 102], [150, 229], [13]] 3 3
     (floor_half 3) (floor_half 3) 0 = Inr (97, 100) \<and>
   (\<Sum>i<nat (ceil_half 3). [[97, 98, 99], [136, 139], [38]] ! i ! nat (0 mod (3 - int i))) mod 256
     = (233::int) \<and>
   (\<Sum>i<nat (ceil_half 3). [[100, 101, 102], [150, 229], [13]] ! i ! nat (0 mod (3 - int i))) mod 256
     = (250::int) \<and>
   rk_encrypt True 97 100 0 = Inr 79 \<and> rk_encrypt True 233 250 0 = Inr 19 \<and>
   rk_encrypt False 97 100 0 = Inr 79 \<and> rk_encrypt False 233 250 0 = Inr 19 \<and>
   nemesis_encrypt True [97, 98, 99] [100, 101, 102] [0] = Inr ([0], (79, 79, 79, 79)) \<and>
   nemesis_encrypt False [97, 98, 99] [100, 101, 102] [0] = Inr ([0], (79, 79, 79, 79))"
  using keystreams_abc_def stops_of_length_3 mixing_bytes_abc_def claimed_sums_abc_def
    rk_encrypt_abc_def nemesis_encrypt_abc_def
  by blast

end
